theory Spec2Isabelle
  imports Complex_Main
begin

section \<open>Strings and objects of the source\<close>

text \<open>
  The program (\<^verbatim>\<open>script.js\<close>) works on JavaScript strings. They are modelled as
  \<^typ>\<open>string\<close> (byte lists); the Japanese literals of the source are written as
  their UTF-8 bytes, the ASCII ones as they are. Only equality, concatenation, splitting
  at \<^verbatim>\<open>_\<close> and the removal of the two regional suffixes are ever applied to
  strings, and these agree on UTF-8 bytes and on UTF-16 code units.
\<close>

definition LOCAL :: string where \<comment> \<open>U+666E U+901A, the ordinary stopping service\<close>
  "LOCAL = [CHR 0xE6, CHR 0x99, CHR 0xAE, CHR 0xE9, CHR 0x80, CHR 0x9A]"

definition SOUTH_SUFFIX :: string where \<comment> \<open>( U+5357 )\<close>
  "SOUTH_SUFFIX = [CHR 0x28, CHR 0xE5, CHR 0x8D, CHR 0x97, CHR 0x29]"

definition HAKUBA_SUFFIX :: string where \<comment> \<open>( U+767D U+99AC )\<close>
  "HAKUBA_SUFFIX = [CHR 0x28, CHR 0xE7, CHR 0x99, CHR 0xBD, CHR 0xE9, CHR 0xA6, CHR 0xAC, CHR 0x29]"

definition LOCAL_SOUTH :: string where \<comment> \<open>U+666E U+901A ( U+5357 )\<close>
  "LOCAL_SOUTH = LOCAL @ SOUTH_SUFFIX"

definition SEMI_EXPRESS :: string where \<comment> \<open>U+6E96 U+6025\<close>
  "SEMI_EXPRESS = [CHR 0xE6, CHR 0xBA, CHR 0x96, CHR 0xE6, CHR 0x80, CHR 0xA5]"

definition DUMMY :: string where \<comment> \<open>U+30C0 U+30DF U+30FC, the topology-only pseudo service\<close>
  "DUMMY = [CHR 0xE3, CHR 0x83, CHR 0x80, CHR 0xE3, CHR 0x83, CHR 0x9F, CHR 0xE3, CHR 0x83, CHR 0xBC]"

definition RAPID :: string where \<comment> \<open>U+5FEB U+901F\<close>
  "RAPID = [CHR 0xE5, CHR 0xBF, CHR 0xAB, CHR 0xE9, CHR 0x80, CHR 0x9F]"

definition RAPID_SOUTH :: string where \<comment> \<open>U+5FEB U+901F ( U+5357 )\<close>
  "RAPID_SOUTH = RAPID @ SOUTH_SUFFIX"

definition EXPRESS :: string where \<comment> \<open>U+6025 U+884C\<close>
  "EXPRESS = [CHR 0xE6, CHR 0x80, CHR 0xA5, CHR 0xE8, CHR 0xA1, CHR 0x8C]"

definition LIMITED_EXPRESS :: string where \<comment> \<open>U+7279 U+6025\<close>
  "LIMITED_EXPRESS = [CHR 0xE7, CHR 0x89, CHR 0xB9, CHR 0xE6, CHR 0x80, CHR 0xA5]"

definition RAPID_EXPRESS :: string where \<comment> \<open>U+5FEB U+901F U+6025 U+884C\<close>
  "RAPID_EXPRESS = RAPID @ EXPRESS"

definition LIMITED_EXPRESS_YAMAKAZE :: string where \<comment> \<open>U+7279 U+6025 U+3084 U+307E U+304B U+305C\<close>
  "LIMITED_EXPRESS_YAMAKAZE = LIMITED_EXPRESS @
     [CHR 0xE3, CHR 0x82, CHR 0x84, CHR 0xE3, CHR 0x81, CHR 0xBE,
      CHR 0xE3, CHR 0x81, CHR 0x8B, CHR 0xE3, CHR 0x81, CHR 0x9C]"

definition SECTION_EXPRESS :: string where \<comment> \<open>U+533A U+9593 U+6025 U+884C\<close>
  "SECTION_EXPRESS = [CHR 0xE5, CHR 0x8C, CHR 0xBA, CHR 0xE9, CHR 0x96, CHR 0x93] @ EXPRESS"

definition COMMUTER_SEMI_EXPRESS :: string where \<comment> \<open>U+901A U+52E4 U+6E96 U+6025\<close>
  "COMMUTER_SEMI_EXPRESS = [CHR 0xE9, CHR 0x80, CHR 0x9A, CHR 0xE5, CHR 0x8B, CHR 0xA4] @ SEMI_EXPRESS"

definition TRANSFER :: string where \<comment> \<open>U+4E57 U+63DB, the type of every transfer and walking edge\<close>
  "TRANSFER = [CHR 0xE4, CHR 0xB9, CHR 0x97, CHR 0xE6, CHR 0x8F, CHR 0x9B]"

definition THROUGH :: string where \<comment> \<open>U+76F4 U+901A, type and line of a through-service edge\<close>
  "THROUGH = [CHR 0xE7, CHR 0x9B, CHR 0xB4, CHR 0xE9, CHR 0x80, CHR 0x9A]"

definition WALK :: string where \<comment> \<open>U+5F92 U+6B69, company and line of a walking edge\<close>
  "WALK = [CHR 0xE5, CHR 0xBE, CHR 0x92, CHR 0xE6, CHR 0xAD, CHR 0xA9]"

definition PLATFORM :: string where \<comment> \<open>U+69CB U+5185 U+4E57 U+63DB, line of an in-station transfer edge\<close>
  "PLATFORM = [CHR 0xE6, CHR 0xA7, CHR 0x8B, CHR 0xE5, CHR 0x86, CHR 0x85] @ TRANSFER"

definition FASTEST :: string where \<comment> \<open>U+6700 U+901F\<close>
  "FASTEST = [CHR 0xE6, CHR 0x9C, CHR 0x80, CHR 0xE9, CHR 0x80, CHR 0x9F]"

definition TRANSFER_AVERSE :: string where \<comment> \<open>U+4E57 U+63DB U+512A U+5148\<close>
  "TRANSFER_AVERSE = TRANSFER @ [CHR 0xE5, CHR 0x84, CHR 0xAA, CHR 0xE5, CHR 0x85, CHR 0x88]"

definition LOCAL_PREFERRING :: string where \<comment> \<open>U+5404 U+505C U+512A U+5148\<close>
  "LOCAL_PREFERRING = [CHR 0xE5, CHR 0x90, CHR 0x84, CHR 0xE5, CHR 0x81, CHR 0x9C,
                       CHR 0xE5, CHR 0x84, CHR 0xAA, CHR 0xE5, CHR 0x85, CHR 0x88]"

lemmas literal_defs =
  LOCAL_def SOUTH_SUFFIX_def HAKUBA_SUFFIX_def LOCAL_SOUTH_def SEMI_EXPRESS_def DUMMY_def
  RAPID_def RAPID_SOUTH_def EXPRESS_def LIMITED_EXPRESS_def RAPID_EXPRESS_def
  LIMITED_EXPRESS_YAMAKAZE_def SECTION_EXPRESS_def COMMUTER_SEMI_EXPRESS_def
  TRANSFER_def THROUGH_def WALK_def PLATFORM_def FASTEST_def TRANSFER_AVERSE_def
  LOCAL_PREFERRING_def

text \<open>
  \<^verbatim>\<open>s.replace(/(?:\(S\)|\(H\))/g, "")\<close>: every occurrence of one of the two
  bracketed regional suffixes is removed, scanning from the left.
\<close>

function stripVariant :: "string \<Rightarrow> string" where
  "stripVariant [] = []"
| "stripVariant (c # cs) =
     (if take (length SOUTH_SUFFIX) (c # cs) = SOUTH_SUFFIX
        then stripVariant (drop (length SOUTH_SUFFIX) (c # cs))
      else if take (length HAKUBA_SUFFIX) (c # cs) = HAKUBA_SUFFIX
        then stripVariant (drop (length HAKUBA_SUFFIX) (c # cs))
      else c # stripVariant cs)"
  by pat_completeness auto
termination
  by (relation "measure length") (auto simp: SOUTH_SUFFIX_def HAKUBA_SUFFIX_def)

text \<open>\<^verbatim>\<open>s.split("_")\<close>: the pieces between the separators; never empty.\<close>

fun splitOn :: "char \<Rightarrow> string \<Rightarrow> string list" where
  "splitOn d [] = [[]]"
| "splitOn d (c # cs) =
     (if c = d then [] # splitOn d cs
      else (case splitOn d cs of [] \<Rightarrow> [[c]] | p # ps \<Rightarrow> (c # p) # ps))"

text \<open>
  A JavaScript object used as a dictionary is an association list in insertion order:
  a new key is appended, an existing key keeps its place. Enumeration (\<^verbatim>\<open>for in\<close>,
  \<^verbatim>\<open>Object.keys\<close>) lists the keys that are array indices first, in ascending
  numeric order, then the other keys in insertion order. Keys are assumed not to be
  names of \<^verbatim>\<open>Object.prototype\<close>.
\<close>

type_synonym 'v obj = "(string \<times> 'v) list"

definition objGet :: "'v obj \<Rightarrow> string \<Rightarrow> 'v option" where
  "objGet ob k = map_of ob k"

fun objSet :: "string \<Rightarrow> 'v \<Rightarrow> 'v obj \<Rightarrow> 'v obj" where
  "objSet k v [] = [(k, v)]"
| "objSet k v (p # ps) = (if fst p = k then (k, v) # ps else p # objSet k v ps)"

definition isDigit :: "char \<Rightarrow> bool" where
  "isDigit c = (c \<in> set ''0123456789'')"

definition digitValue :: "char \<Rightarrow> nat" where
  "digitValue c = of_char c - of_char (CHR ''0'')"

definition decimalValue :: "string \<Rightarrow> nat" where
  "decimalValue s = fold (\<lambda>c n. 10 * n + digitValue c) s 0"

definition arrayIndex :: "string \<Rightarrow> nat option" where
  "arrayIndex s =
     (if s \<noteq> [] \<and> list_all isDigit s \<and> (length s = 1 \<or> hd s \<noteq> CHR ''0'')
         \<and> decimalValue s < 4294967295
      then Some (decimalValue s) else None)"

definition ownKeys :: "'v obj \<Rightarrow> string list" where
  "ownKeys ob =
     (let ks = map fst ob
      in sort_key (\<lambda>k. case arrayIndex k of Some n \<Rightarrow> n | None \<Rightarrow> 0)
           (filter (\<lambda>k. arrayIndex k \<noteq> None) ks)
         @ filter (\<lambda>k. arrayIndex k = None) ks)"

text \<open>\<^verbatim>\<open>xs.indexOf(x)\<close>: the first position of \<open>x\<close>; \<open>None\<close> stands for \<open>-1\<close>.\<close>

fun indexOf :: "'a list \<Rightarrow> 'a \<Rightarrow> nat option" where
  "indexOf [] x = None"
| "indexOf (y # ys) x =
     (if y = x then Some 0 else (case indexOf ys x of None \<Rightarrow> None | Some n \<Rightarrow> Some (Suc n)))"

text \<open>\<^verbatim>\<open>set.add(x)\<close> on a \<^verbatim>\<open>Set\<close>, kept as the list of its members in insertion order.\<close>

definition setAdd :: "'a \<Rightarrow> 'a list \<Rightarrow> 'a list" where
  "setAdd x xs = (if x \<in> set xs then xs else xs @ [x])"

section \<open>Input records and the graph\<close>

record station =
  st_id :: string
  st_name :: string
  st_x :: real
  st_y :: real
  st_company :: string
  st_line :: string

record route =
  rt_company :: string
  rt_line :: string
  rt_stops :: "string list"

record service =
  sv_type :: string
  sv_routes :: "route list"

record throughService =
  ts_stationIdA :: string
  ts_stationIdB :: string
  ts_companyA :: string
  ts_lineA :: string
  ts_companyB :: string
  ts_lineB :: string
  ts_types :: "string list"
  ts_directionFromA :: "string option"
  ts_departureDirection :: "string option"

record edge =
  e_from :: string
  e_to :: string
  e_time :: real
  e_dist :: real
  e_type :: string
  e_company :: string
  e_line :: string

record segment =
  seg_dist :: real
  seg_time :: real

record graph =
  g_edges :: "edge list"
  g_stationStops :: "string list obj"
  g_stationOrderMap :: "nat obj obj"

datatype error = TypeError

definition TRAIN_SPEED :: real where "TRAIN_SPEED = 15"
definition STOP_TIME :: real where "STOP_TIME = 5"
definition TRANSFER_TIME :: real where "TRANSFER_TIME = 15"
definition WALK_SPEED_MPS :: real where "WALK_SPEED_MPS = 4"
definition MAX_WALK_DISTANCE_M :: real where "MAX_WALK_DISTANCE_M = 150"
definition THROUGH_SERVICE_TIME :: real where "THROUGH_SERVICE_TIME = 1"
definition PLATFORM_TRANSFER_TIME :: real where "PLATFORM_TRANSFER_TIME = 10"

lemmas constant_defs =
  TRAIN_SPEED_def STOP_TIME_def TRANSFER_TIME_def WALK_SPEED_MPS_def MAX_WALK_DISTANCE_M_def
  THROUGH_SERVICE_TIME_def PLATFORM_TRANSFER_TIME_def

definition lineKeyOf :: "string \<Rightarrow> string \<Rightarrow> string" where
  "lineKeyOf company line = company @ ''-'' @ line"

definition segKey :: "string \<Rightarrow> string \<Rightarrow> string" where
  "segKey fromId toId = fromId @ ''->'' @ toId"

definition nodeOf :: "string \<Rightarrow> string \<Rightarrow> string" where
  "nodeOf stationId ty = stationId @ ''_'' @ ty"

definition findStation :: "station list \<Rightarrow> string \<Rightarrow> station option" where
  "findStation stations k = find (\<lambda>s. st_id s = k) stations"

definition euclid :: "station \<Rightarrow> station \<Rightarrow> real" where
  "euclid sA sB = sqrt ((st_x sA - st_x sB)\<^sup>2 + (st_y sA - st_y sB)\<^sup>2)"

section \<open>buildGraph\<close>

subsection \<open>Pass 1: station order and segment cache of every line\<close>

definition isBaseRoute :: "string \<Rightarrow> bool" where
  "isBaseRoute ty = (ty \<in> set [LOCAL, LOCAL_SOUTH, SEMI_EXPRESS, DUMMY])"

text \<open>
  The loop over the stops of one base route, \<open>i\<close> counting the position; \<open>om\<close> and
  \<open>sc\<close> are the order map and the segment cache of the route's line.
\<close>

definition learnStop :: "station list \<Rightarrow> nat \<Rightarrow> string \<Rightarrow> string list \<Rightarrow> nat obj \<times> segment obj
                     \<Rightarrow> nat obj \<times> segment obj" where
  "learnStop stations i stopId rest st =
     (let om = fst st; sc = snd st
      in (if objGet om stopId = None then objSet stopId i om else om,
          (case rest of
             [] \<Rightarrow> sc
           | toId # _ \<Rightarrow>
               if objGet sc (segKey stopId toId) \<noteq> None then sc
               else (case (findStation stations stopId, findStation stations toId) of
                       (Some sA, Some sB) \<Rightarrow>
                         (let dist = euclid sA sB;
                              time = dist / TRAIN_SPEED + STOP_TIME;
                              seg = \<lparr>seg_dist = dist, seg_time = time\<rparr>
                          in objSet (segKey toId stopId) seg
                               (objSet (segKey stopId toId) seg sc))
                     | _ \<Rightarrow> sc))))"

fun learnStops :: "station list \<Rightarrow> nat \<Rightarrow> string list \<Rightarrow> nat obj \<times> segment obj
                     \<Rightarrow> nat obj \<times> segment obj" where
  "learnStops stations i [] st = st"
| "learnStops stations i (stopId # rest) st =
     learnStops stations (Suc i) rest (learnStop stations i stopId rest st)"

definition learnRoute :: "station list \<Rightarrow> route \<Rightarrow> nat obj obj \<times> segment obj obj
                            \<Rightarrow> nat obj obj \<times> segment obj obj" where
  "learnRoute stations r st =
     (let lineKey = lineKeyOf (rt_company r) (rt_line r);
          om = (case objGet (fst st) lineKey of None \<Rightarrow> [] | Some m \<Rightarrow> m);
          sc = (case objGet (snd st) lineKey of None \<Rightarrow> [] | Some c \<Rightarrow> c);
          learned = learnStops stations 0 (rt_stops r) (om, sc)
      in (objSet lineKey (fst learned) (fst st), objSet lineKey (snd learned) (snd st)))"

definition learnService :: "station list \<Rightarrow> service \<Rightarrow> nat obj obj \<times> segment obj obj
                              \<Rightarrow> nat obj obj \<times> segment obj obj" where
  "learnService stations sv st =
     (if isBaseRoute (sv_type sv) then fold (learnRoute stations) (sv_routes sv) st else st)"

definition learnTopology :: "station list \<Rightarrow> service list \<Rightarrow> nat obj obj \<times> segment obj obj" where
  "learnTopology stations services = fold (learnService stations) services ([], [])"

subsection \<open>Pass 2: ride edges of every service\<close>

definition fullLine :: "nat obj \<Rightarrow> string list" where
  "fullLine lineOrderMap =
     sort_key (\<lambda>k. case objGet lineOrderMap k of Some n \<Rightarrow> n | None \<Rightarrow> 0) (ownKeys lineOrderMap)"

definition addSegment :: "segment obj \<Rightarrow> string \<Rightarrow> real \<Rightarrow> real" where
  "addSegment sc segK totalDist =
     (case objGet sc segK of Some segData \<Rightarrow> totalDist + seg_dist segData | None \<Rightarrow> totalDist)"

text \<open>
  The inner loop \<^verbatim>\<open>for (j = idxFrom; j !== idxTo; j += direction)\<close>: the positions
  \<open>j\<close> it visits, and the cache key it reads at each.
\<close>

definition hopKeys :: "string list \<Rightarrow> nat \<Rightarrow> nat \<Rightarrow> string list" where
  "hopKeys full idxFrom idxTo =
     (if idxTo > idxFrom
      then map (\<lambda>j. segKey (full ! j) (full ! (j + 1))) [idxFrom..<idxTo]
      else map (\<lambda>j. segKey (full ! (j - 1)) (full ! j)) (rev [idxTo + 1..<idxFrom + 1]))"

definition accumulateDist :: "segment obj \<Rightarrow> string list \<Rightarrow> nat \<Rightarrow> nat \<Rightarrow> real" where
  "accumulateDist sc full idxFrom idxTo = fold (addSegment sc) (hopKeys full idxFrom idxTo) 0"

definition recordStop :: "string \<Rightarrow> string \<Rightarrow> string \<Rightarrow> string list obj \<Rightarrow> string list obj" where
  "recordStop fromId toId ty ss =
     (let ss1 = (if objGet ss fromId = None then objSet fromId [] ss else ss);
          ss2 = (if objGet ss1 toId = None then objSet toId [] ss1 else ss1);
          ss3 = (case objGet ss2 fromId of None \<Rightarrow> ss2 | Some ts \<Rightarrow> objSet fromId (setAdd ty ts) ss2)
      in (case objGet ss3 toId of None \<Rightarrow> ss3 | Some ts \<Rightarrow> objSet toId (setAdd ty ts) ss3))"

definition rideEdge :: "string \<Rightarrow> route \<Rightarrow> string \<Rightarrow> string \<Rightarrow> real \<Rightarrow> edge" where
  "rideEdge ty r fromNode toNode totalDist =
     \<lparr>e_from = fromNode, e_to = toNode, e_time = totalDist / TRAIN_SPEED + STOP_TIME,
      e_dist = totalDist, e_type = ty, e_company = rt_company r, e_line = rt_line r\<rparr>"

text \<open>The body of the loop over consecutive stops, for the pair \<open>(fromId, toId)\<close>.\<close>

definition rideStep :: "string \<Rightarrow> route \<Rightarrow> segment obj \<Rightarrow> string list \<Rightarrow> string \<Rightarrow> string
                    \<Rightarrow> edge list \<times> string list obj \<Rightarrow> edge list \<times> string list obj" where
  "rideStep ty r sc full fromId toId st =
     (if ty = LOCAL \<and> fromId = ''IK01'' \<and> toId = ''IK02'' then st
      else (case (indexOf full fromId, indexOf full toId) of
              (Some idxFrom, Some idxTo) \<Rightarrow>
                (let totalDist = accumulateDist sc full idxFrom idxTo;
                     fromNode = nodeOf fromId ty;
                     toNode = nodeOf toId ty
                 in (fst st @ [rideEdge ty r fromNode toNode totalDist,
                               rideEdge ty r toNode fromNode totalDist],
                     recordStop fromId toId ty (snd st)))
            | _ \<Rightarrow> st))"

fun rideStops :: "string \<Rightarrow> route \<Rightarrow> segment obj \<Rightarrow> string list \<Rightarrow> string list
                    \<Rightarrow> edge list \<times> string list obj \<Rightarrow> edge list \<times> string list obj" where
  "rideStops ty r sc full (fromId # toId # rest) st =
     rideStops ty r sc full (toId # rest) (rideStep ty r sc full fromId toId st)"
| "rideStops ty r sc full stops st = st"

definition rideRoute :: "nat obj obj \<Rightarrow> segment obj obj \<Rightarrow> string \<Rightarrow> route
                           \<Rightarrow> edge list \<times> string list obj \<Rightarrow> edge list \<times> string list obj" where
  "rideRoute stationOrderMap segmentCache ty r st =
     (let lineKey = lineKeyOf (rt_company r) (rt_line r)
      in (case objGet stationOrderMap lineKey of
            None \<Rightarrow> st
          | Some lineOrderMap \<Rightarrow>
              rideStops ty r (case objGet segmentCache lineKey of None \<Rightarrow> [] | Some c \<Rightarrow> c)
                (fullLine lineOrderMap) (rt_stops r) st))"

definition rideService :: "nat obj obj \<Rightarrow> segment obj obj \<Rightarrow> service
                             \<Rightarrow> edge list \<times> string list obj \<Rightarrow> edge list \<times> string list obj" where
  "rideService stationOrderMap segmentCache sv st =
     (if sv_type sv = DUMMY then st
      else fold (rideRoute stationOrderMap segmentCache (sv_type sv)) (sv_routes sv) st)"

definition serviceEdges :: "nat obj obj \<Rightarrow> segment obj obj \<Rightarrow> service list
                              \<Rightarrow> edge list \<times> string list obj" where
  "serviceEdges stationOrderMap segmentCache services =
     fold (rideService stationOrderMap segmentCache) services ([], [])"

subsection \<open>Pass 3: transfers between the services of one station\<close>

definition separatedAtNY10 :: "string \<Rightarrow> string \<Rightarrow> bool" where
  "separatedAtNY10 type1 type2 =
     (((type1 = LOCAL \<or> type2 = LOCAL) \<and> (type1 = LOCAL_SOUTH \<or> type2 = LOCAL_SOUTH)) \<or>
      ((type1 = RAPID \<or> type2 = RAPID) \<and> (type1 = RAPID_SOUTH \<or> type2 = RAPID_SOUTH)))"

definition transferEdge :: "station \<Rightarrow> string \<Rightarrow> string \<Rightarrow> edge" where
  "transferEdge st node1 node2 =
     \<lparr>e_from = node1, e_to = node2, e_time = TRANSFER_TIME, e_dist = 0, e_type = TRANSFER,
      e_company = st_company st, e_line = st_line st\<rparr>"

text \<open>
  The loop over \<open>j\<close> for a fixed \<open>i\<close>. \<open>station\<close> is the result of the lookup in the
  station list; reading \<^verbatim>\<open>station.company\<close> of a missing station raises a TypeError.
\<close>

fun transferInner :: "string \<Rightarrow> station option \<Rightarrow> string \<Rightarrow> string list \<Rightarrow> edge list
                        \<Rightarrow> error + edge list" where
  "transferInner stationId station type1 [] edges = Inr edges"
| "transferInner stationId station type1 (type2 # ts) edges =
     (if stationId = ''NY10'' \<and> separatedAtNY10 type1 type2
      then transferInner stationId station type1 ts edges
      else (case station of
              None \<Rightarrow> Inl TypeError
            | Some st \<Rightarrow>
                transferInner stationId station type1 ts
                  (edges @ [transferEdge st (nodeOf stationId type1) (nodeOf stationId type2),
                            transferEdge st (nodeOf stationId type2) (nodeOf stationId type1)])))"

fun transferOuter :: "string \<Rightarrow> station option \<Rightarrow> string list \<Rightarrow> edge list \<Rightarrow> error + edge list" where
  "transferOuter stationId station [] edges = Inr edges"
| "transferOuter stationId station (type1 # ts) edges =
     (case transferInner stationId station type1 ts edges of
        Inl err \<Rightarrow> Inl err
      | Inr edges' \<Rightarrow> transferOuter stationId station ts edges')"

fun transferStations :: "station list \<Rightarrow> string list obj \<Rightarrow> string list \<Rightarrow> edge list
                           \<Rightarrow> error + edge list" where
  "transferStations stations ss [] edges = Inr edges"
| "transferStations stations ss (stationId # ks) edges =
     (let types = (case objGet ss stationId of None \<Rightarrow> [] | Some ts \<Rightarrow> ts)
      in if length types \<le> 1 then transferStations stations ss ks edges
         else (case transferOuter stationId (findStation stations stationId) types edges of
                 Inl err \<Rightarrow> Inl err
               | Inr edges' \<Rightarrow> transferStations stations ss ks edges'))"

definition transferEdges :: "station list \<Rightarrow> string list obj \<Rightarrow> edge list \<Rightarrow> error + edge list" where
  "transferEdges stations ss edges = transferStations stations ss (ownKeys ss) edges"

subsection \<open>Pass 4: in-station transfers, through services and walking links\<close>

definition findRule :: "throughService list \<Rightarrow> station \<Rightarrow> station \<Rightarrow> throughService option" where
  "findRule throughServices sA sB =
     find (\<lambda>ts. (ts_stationIdA ts = st_id sA \<and> ts_stationIdB ts = st_id sB) \<or>
                (ts_stationIdA ts = st_id sB \<and> ts_stationIdB ts = st_id sA)) throughServices"

definition isThroughPair :: "throughService list \<Rightarrow> station \<Rightarrow> station \<Rightarrow> string \<Rightarrow> string \<Rightarrow> bool" where
  "isThroughPair throughServices sA sB typeA typeB =
     (stripVariant typeA = stripVariant typeB \<and>
      (case findRule throughServices sA sB of
         None \<Rightarrow> False
       | Some rule \<Rightarrow> stripVariant typeA \<in> set (ts_types rule)))"

definition samePointEdges :: "throughService list \<Rightarrow> station \<Rightarrow> station \<Rightarrow> string \<Rightarrow> string
                                \<Rightarrow> edge list" where
  "samePointEdges throughServices sA sB typeA typeB =
     (let nodeA = nodeOf (st_id sA) typeA;
          nodeB = nodeOf (st_id sB) typeB;
          through = isThroughPair throughServices sA sB typeA typeB;
          ty = (if through then THROUGH else TRANSFER);
          ln = (if through then THROUGH else PLATFORM);
          tm = (if through then THROUGH_SERVICE_TIME else PLATFORM_TRANSFER_TIME)
      in [\<lparr>e_from = nodeA, e_to = nodeB, e_time = tm, e_dist = 0, e_type = ty,
            e_company = st_company sA, e_line = ln\<rparr>,
          \<lparr>e_from = nodeB, e_to = nodeA, e_time = tm, e_dist = 0, e_type = ty,
            e_company = st_company sB, e_line = ln\<rparr>])"

definition walkEdges :: "station \<Rightarrow> station \<Rightarrow> real \<Rightarrow> string \<Rightarrow> string \<Rightarrow> edge list" where
  "walkEdges sA sB walkDist typeA typeB =
     (let nodeA = nodeOf (st_id sA) typeA;
          nodeB = nodeOf (st_id sB) typeB;
          walkTime = walkDist / WALK_SPEED_MPS
      in [\<lparr>e_from = nodeA, e_to = nodeB, e_time = walkTime, e_dist = walkDist, e_type = TRANSFER,
            e_company = WALK, e_line = WALK\<rparr>,
          \<lparr>e_from = nodeB, e_to = nodeA, e_time = walkTime, e_dist = walkDist, e_type = TRANSFER,
            e_company = WALK, e_line = WALK\<rparr>])"

definition samePointAll :: "throughService list \<Rightarrow> station \<Rightarrow> station \<Rightarrow> string list \<Rightarrow> string
                              \<Rightarrow> edge list" where
  "samePointAll throughServices sA sB typesB typeA =
     concat (map (samePointEdges throughServices sA sB typeA) typesB)"

definition walkAll :: "station \<Rightarrow> station \<Rightarrow> real \<Rightarrow> string list \<Rightarrow> string \<Rightarrow> edge list" where
  "walkAll sA sB walkDist typesB typeA = concat (map (walkEdges sA sB walkDist typeA) typesB)"

definition pairEdges :: "throughService list \<Rightarrow> string list obj \<Rightarrow> station \<Rightarrow> string list
                           \<Rightarrow> station \<Rightarrow> edge list" where
  "pairEdges throughServices ss sA typesA sB =
     (case objGet ss (st_id sB) of
        None \<Rightarrow> []
      | Some typesB \<Rightarrow>
          (let dist = euclid sA sB
           in if dist = 0 \<and> st_id sA \<noteq> st_id sB
              then concat (map (samePointAll throughServices sA sB typesB) typesA)
              else if dist > 0 \<and> dist \<le> MAX_WALK_DISTANCE_M
              then concat (map (walkAll sA sB dist typesB) typesA)
              else []))"

fun proximityEdges :: "throughService list \<Rightarrow> string list obj \<Rightarrow> station list \<Rightarrow> edge list" where
  "proximityEdges throughServices ss [] = []"
| "proximityEdges throughServices ss (sA # rest) =
     (case objGet ss (st_id sA) of
        None \<Rightarrow> []
      | Some typesA \<Rightarrow> concat (map (pairEdges throughServices ss sA typesA) rest))
     @ proximityEdges throughServices ss rest"

subsection \<open>The whole builder\<close>

definition buildGraph :: "station list \<Rightarrow> service list \<Rightarrow> throughService list \<Rightarrow> error + graph" where
  "buildGraph stations services throughServices =
     (let (stationOrderMap, segmentCache) = learnTopology stations services;
          (edges2, stationStops) = serviceEdges stationOrderMap segmentCache services
      in (case transferEdges stations stationStops edges2 of
            Inl err \<Rightarrow> Inl err
          | Inr edges3 \<Rightarrow>
              Inr \<lparr>g_edges = edges3 @ proximityEdges throughServices stationStops stations,
                   g_stationStops = stationStops,
                   g_stationOrderMap = stationOrderMap\<rparr>))"

section \<open>dijkstra\<close>

record dstate =
  d_times :: "string \<rightharpoonup> real"
  d_prev :: "string \<rightharpoonup> string"
  d_pq :: "(string \<times> real) list"
  d_distances :: "string \<rightharpoonup> real"

record found =
  r_path :: "string list"
  r_time :: real
  r_distance :: "real option"

text \<open>
  The two destructurings of \<^verbatim>\<open>node.split("_")\<close>: the first piece always exists, the
  second is \<^verbatim>\<open>undefined\<close> (\<open>None\<close>) when the node holds no separator.
\<close>

definition idOfNode :: "string \<Rightarrow> string" where
  "idOfNode node = (case splitOn (CHR ''_'') node of [] \<Rightarrow> [] | p # _ \<Rightarrow> p)"

definition typeOfNode :: "string \<Rightarrow> string option" where
  "typeOfNode node = (case splitOn (CHR ''_'') node of _ # t # _ \<Rightarrow> Some t | _ \<Rightarrow> None)"

subsection \<open>The constraints on a candidate edge\<close>

text \<open>\<^verbatim>\<open>edges.find(e => e.from === a && e.to === b)\<close>: the first edge from \<open>a\<close> to \<open>b\<close>.\<close>

definition findEdge :: "edge list \<Rightarrow> string \<Rightarrow> string \<Rightarrow> edge option" where
  "findEdge edges a b = find (\<lambda>e. e_from e = a \<and> e_to e = b) edges"

text \<open>Each predicate is true when the source executes \<^verbatim>\<open>continue\<close>.\<close>

definition consecutiveTransfer :: "edge list \<Rightarrow> (string \<rightharpoonup> string) \<Rightarrow> string \<Rightarrow> edge \<Rightarrow> bool" where
  "consecutiveTransfer edges prv node edge =
     (e_type edge = TRANSFER \<and> e_line edge \<in> set [WALK, PLATFORM] \<and>
      (case prv node of
         None \<Rightarrow> False
       | Some prevNode \<Rightarrow>
           (case findEdge edges prevNode node of
              None \<Rightarrow> False
            | Some prevEdge \<Rightarrow> e_type prevEdge \<in> set [TRANSFER, THROUGH])))"

definition ruleMatches :: "string \<Rightarrow> string \<Rightarrow> station \<Rightarrow> station \<Rightarrow> string \<Rightarrow> throughService \<Rightarrow> bool" where
  "ruleMatches fromId toId fromSt toSt baseFromType ts =
     (ts_stationIdA ts = fromId \<and> ts_stationIdB ts = toId \<and>
      ts_companyA ts = st_company fromSt \<and> ts_lineA ts = st_line fromSt \<and>
      ts_companyB ts = st_company toSt \<and> ts_lineB ts = st_line toSt \<and>
      baseFromType \<in> set (ts_types ts))"

text \<open>
  \<^verbatim>\<open>lineOrder[fromId] > lineOrder[prevId]\<close>: a comparison with \<^verbatim>\<open>undefined\<close> is false.
\<close>

definition jsGreater :: "nat option \<Rightarrow> nat option \<Rightarrow> bool" where
  "jsGreater a b = (case (a, b) of (Some m, Some n) \<Rightarrow> m > n | _ \<Rightarrow> False)"

definition arrivalMismatch :: "nat obj obj \<Rightarrow> station \<Rightarrow> string \<Rightarrow> string \<Rightarrow> throughService \<Rightarrow> bool" where
  "arrivalMismatch stationOrderMap fromSt fromId prevId rule =
     (case ts_directionFromA rule of
        None \<Rightarrow> False
      | Some required \<Rightarrow>
          required \<noteq> [] \<and>
          (case objGet stationOrderMap (lineKeyOf (st_company fromSt) (st_line fromSt)) of
             None \<Rightarrow> False
           | Some lineOrder \<Rightarrow>
               required \<noteq> (if jsGreater (objGet lineOrder fromId) (objGet lineOrder prevId)
                             then ''Up'' else ''Down'')))"

definition throughBlocked :: "station list \<Rightarrow> nat obj obj \<Rightarrow> throughService list
                                \<Rightarrow> (string \<rightharpoonup> string) \<Rightarrow> string \<Rightarrow> edge \<Rightarrow> error + bool" where
  "throughBlocked stations stationOrderMap throughServices prv node edge =
     (case prv node of
        None \<Rightarrow> Inr True
      | Some prevNode \<Rightarrow>
          (let fromId = idOfNode node;
               toId = idOfNode (e_to edge);
               prevId = idOfNode prevNode
           in (case (findStation stations fromId, findStation stations toId,
                     findStation stations prevId) of
                 (Some fromSt, Some toSt, Some prevSt) \<Rightarrow>
                   (case typeOfNode node of
                      None \<Rightarrow> Inl TypeError
                    | Some fromType \<Rightarrow>
                        (case find (ruleMatches fromId toId fromSt toSt (stripVariant fromType))
                                throughServices of
                           None \<Rightarrow> Inr True
                         | Some rule \<Rightarrow>
                             Inr (arrivalMismatch stationOrderMap fromSt fromId prevId rule)))
               | _ \<Rightarrow> Inr True)))"

definition platformUTurn :: "station list \<Rightarrow> (string \<rightharpoonup> string) \<Rightarrow> string \<Rightarrow> edge \<Rightarrow> bool" where
  "platformUTurn stations prv node edge =
     (e_line edge = PLATFORM \<and>
      (case prv node of
         None \<Rightarrow> False
       | Some prevNode \<Rightarrow>
           (case (findStation stations (idOfNode node), findStation stations (idOfNode prevNode)) of
              (Some fromSt, Some prevSt) \<Rightarrow>
                st_company fromSt = st_company prevSt \<and> st_line fromSt = st_line prevSt
            | _ \<Rightarrow> False)))"

subsection \<open>Relaxation and the main loop\<close>

text \<open>
  The checks that the body of \<^verbatim>\<open>for (const edge of edges)\<close> makes before the cost
  update, in the order of the source: \<open>Inr True\<close> when one of them executes
  \<^verbatim>\<open>continue\<close>, \<open>Inr False\<close> when the edge reaches the update. The block that
  should keep a ride inside the range of start and goal is empty in the source, so a
  ride edge passes it unchanged.
\<close>

definition blocked :: "station list \<Rightarrow> edge list \<Rightarrow> nat obj obj \<Rightarrow> throughService list
                         \<Rightarrow> (string \<rightharpoonup> string) \<Rightarrow> string \<Rightarrow> edge \<Rightarrow> error + bool" where
  "blocked stations edges stationOrderMap throughServices prv node edge =
     (if consecutiveTransfer edges prv node edge then Inr True
      else (case (if e_type edge = THROUGH
                  then throughBlocked stations stationOrderMap throughServices prv node edge
                  else Inr False) of
              Inl err \<Rightarrow> Inl err
            | Inr stop \<Rightarrow> if stop then Inr True else Inr (platformUTurn stations prv node edge)))"

text \<open>The cost update for an edge that passed the checks.\<close>

definition improve :: "string \<Rightarrow> real \<Rightarrow> edge \<Rightarrow> dstate \<Rightarrow> dstate" where
  "improve node time edge st =
     (let newTime = time + e_time edge;
          newDistance = (case d_distances st node of None \<Rightarrow> 0 | Some d \<Rightarrow> d) + e_dist edge
      in if (case d_times st (e_to edge) of None \<Rightarrow> True | Some t \<Rightarrow> newTime < t)
         then st\<lparr>d_times := (d_times st)(e_to edge \<mapsto> newTime),
                 d_distances := (d_distances st)(e_to edge \<mapsto> newDistance),
                 d_prev := (d_prev st)(e_to edge \<mapsto> node),
                 d_pq := d_pq st @ [(e_to edge, newTime)]\<rparr>
         else st)"

text \<open>The body of the loop over the edges, for the popped entry \<open>(node, time)\<close>.\<close>

definition relaxEdge :: "station list \<Rightarrow> edge list \<Rightarrow> nat obj obj \<Rightarrow> throughService list
                           \<Rightarrow> string \<Rightarrow> real \<Rightarrow> edge \<Rightarrow> dstate \<Rightarrow> error + dstate" where
  "relaxEdge stations edges stationOrderMap throughServices node time edge st =
     (if e_from edge \<noteq> node then Inr st
      else (case blocked stations edges stationOrderMap throughServices (d_prev st) node edge of
              Inl err \<Rightarrow> Inl err
            | Inr stop \<Rightarrow> if stop then Inr st else Inr (improve node time edge st)))"

fun relaxEdges :: "station list \<Rightarrow> edge list \<Rightarrow> nat obj obj \<Rightarrow> throughService list
                     \<Rightarrow> string \<Rightarrow> real \<Rightarrow> edge list \<Rightarrow> dstate \<Rightarrow> error + dstate" where
  "relaxEdges stations edges stationOrderMap throughServices node time [] st = Inr st"
| "relaxEdges stations edges stationOrderMap throughServices node time (edge # es) st =
     (case relaxEdge stations edges stationOrderMap throughServices node time edge st of
        Inl err \<Rightarrow> Inl err
      | Inr st' \<Rightarrow> relaxEdges stations edges stationOrderMap throughServices node time es st')"

text \<open>
  \<^verbatim>\<open>while (pq.length > 0)\<close>: the queue is sorted (stably) by time and its head is
  taken. The loop need not end for arbitrary edge weights, so its result is an option:
  \<open>None\<close> when it runs forever.
\<close>

partial_function (option) dijkstraLoop :: "station list \<Rightarrow> edge list \<Rightarrow> nat obj obj
    \<Rightarrow> throughService list \<Rightarrow> dstate \<Rightarrow> (error + dstate) option" where
  "dijkstraLoop stations edges stationOrderMap throughServices st =
     (case sort_key snd (d_pq st) of
        [] \<Rightarrow> Some (Inr st)
      | (node, time) # rest \<Rightarrow>
          if (case d_times st node of None \<Rightarrow> False | Some t \<Rightarrow> time > t)
          then dijkstraLoop stations edges stationOrderMap throughServices (st\<lparr>d_pq := rest\<rparr>)
          else (case relaxEdges stations edges stationOrderMap throughServices node time edges
                       (st\<lparr>d_pq := rest\<rparr>) of
                  Inl err \<Rightarrow> Some (Inl err)
                | Inr st' \<Rightarrow> dijkstraLoop stations edges stationOrderMap throughServices st'))"

subsection \<open>Seeding, goal selection and path reconstruction\<close>

definition seedStart :: "string \<Rightarrow> string \<Rightarrow> dstate \<Rightarrow> dstate" where
  "seedStart startStationId ty st =
     (let startNode = nodeOf startStationId ty
      in st\<lparr>d_times := (d_times st)(startNode \<mapsto> 0),
            d_distances := (d_distances st)(startNode \<mapsto> 0),
            d_pq := d_pq st @ [(startNode, 0)]\<rparr>)"

definition initialState :: "string list obj \<Rightarrow> string \<Rightarrow> dstate" where
  "initialState stationStops startStationId =
     fold (seedStart startStationId)
       (case objGet stationStops startStationId of None \<Rightarrow> [] | Some ts \<Rightarrow> ts)
       \<lparr>d_times = Map.empty, d_prev = Map.empty, d_pq = [], d_distances = Map.empty\<rparr>"

text \<open>\<open>bestTime\<close> starts as \<^verbatim>\<open>Infinity\<close> and \<open>bestGoalNode\<close> as \<^verbatim>\<open>null\<close>, both \<open>None\<close> here.\<close>

definition pickGoal :: "(string \<rightharpoonup> real) \<Rightarrow> string \<Rightarrow> string
                          \<Rightarrow> real option \<times> string option \<Rightarrow> real option \<times> string option" where
  "pickGoal tms goalStationId ty best =
     (let goalNode = nodeOf goalStationId ty
      in (case tms goalNode of
            None \<Rightarrow> best
          | Some t \<Rightarrow>
              if (case fst best of None \<Rightarrow> True | Some bestTime \<Rightarrow> t < bestTime)
              then (Some t, Some goalNode) else best))"

partial_function (option) walkBack :: "(string \<rightharpoonup> string) \<Rightarrow> string \<Rightarrow> string list
    \<Rightarrow> string list option" where
  "walkBack prv current path =
     (case prv current of
        None \<Rightarrow> Some (current # path)
      | Some p \<Rightarrow> walkBack prv p (current # path))"

text \<open>
  The result: \<open>None\<close> when the search does not return, \<open>Some (Inl e)\<close> when it raises,
  \<open>Some (Inr None)\<close> for \<^verbatim>\<open>null\<close> and \<open>Some (Inr (Some r))\<close> for a route.
\<close>

definition dijkstra :: "station list \<Rightarrow> edge list \<Rightarrow> string \<Rightarrow> string \<Rightarrow> string list obj
    \<Rightarrow> nat obj obj \<Rightarrow> throughService list \<Rightarrow> (error + found option) option" where
  "dijkstra stations edges startStationId goalStationId stationStops stationOrderMap throughServices =
     (case dijkstraLoop stations edges stationOrderMap throughServices
             (initialState stationStops startStationId) of
        None \<Rightarrow> None
      | Some (Inl err) \<Rightarrow> Some (Inl err)
      | Some (Inr st) \<Rightarrow>
          (case fold (pickGoal (d_times st) goalStationId)
                  (case objGet stationStops goalStationId of None \<Rightarrow> [] | Some ts \<Rightarrow> ts)
                  (None, None) of
             (Some bestTime, Some bestGoalNode) \<Rightarrow>
               (case walkBack (d_prev st) bestGoalNode [] of
                  None \<Rightarrow> None
                | Some path \<Rightarrow>
                    Some (Inr (Some \<lparr>r_path = path, r_time = bestTime,
                                     r_distance = d_distances st bestGoalNode\<rparr>)))
           | _ \<Rightarrow> Some (Inr None)))"

section \<open>searchRoute\<close>

record penalty =
  p_transfer :: "real option"
  p_express :: "real option"

record pattern =
  pt_type :: string
  pt_penalty :: penalty

record result =
  res_path :: "string list"
  res_time :: real
  res_distance :: real
  res_searchType :: string

text \<open>What the function leaves behind: one of its two alerts, the message that no route
  was found, or the list handed to \<^verbatim>\<open>displayRouteResults\<close>.\<close>

datatype outcome = DataNotLoaded | StationNotFound | NoRouteFound | Displayed "result list"

definition fastestPattern :: pattern where
  "fastestPattern = \<lparr>pt_type = FASTEST, pt_penalty = \<lparr>p_transfer = None, p_express = None\<rparr>\<rparr>"

definition transferAversePattern :: pattern where
  "transferAversePattern =
     \<lparr>pt_type = TRANSFER_AVERSE, pt_penalty = \<lparr>p_transfer = Some 180, p_express = None\<rparr>\<rparr>"

definition localPreferringPattern :: pattern where
  "localPreferringPattern =
     \<lparr>pt_type = LOCAL_PREFERRING, pt_penalty = \<lparr>p_transfer = Some 30, p_express = Some 60\<rparr>\<rparr>"

definition searchPatterns :: "pattern list" where
  "searchPatterns = [fastestPattern, transferAversePattern, localPreferringPattern]"

definition expressTypes :: "string list" where
  "expressTypes = [LIMITED_EXPRESS, RAPID, EXPRESS, SEMI_EXPRESS, RAPID_EXPRESS,
                   LIMITED_EXPRESS_YAMAKAZE, SECTION_EXPRESS, COMMUTER_SEMI_EXPRESS, RAPID_SOUTH]"

text \<open>A penalty applies when it is present and not zero (JavaScript truthiness).\<close>

definition applyPenalty :: "real option \<Rightarrow> bool \<Rightarrow> real \<Rightarrow> real" where
  "applyPenalty pen applies t =
     (case pen of None \<Rightarrow> t | Some v \<Rightarrow> if v \<noteq> 0 \<and> applies then t + v else t)"

definition modifyEdge :: "pattern \<Rightarrow> edge \<Rightarrow> edge" where
  "modifyEdge pat edge =
     edge\<lparr>e_time :=
       applyPenalty (p_express (pt_penalty pat)) (e_type edge \<in> set expressTypes)
         (applyPenalty (p_transfer (pt_penalty pat))
            (e_type edge \<in> set [TRANSFER, PLATFORM, WALK]) (e_time edge))\<rparr>"

definition modifiedEdges :: "pattern \<Rightarrow> edge list \<Rightarrow> edge list" where
  "modifiedEdges pat edges = map (modifyEdge pat) edges"

definition better :: "found option \<Rightarrow> found option \<Rightarrow> found option" where
  "better rt bestRoute =
     (case rt of
        None \<Rightarrow> bestRoute
      | Some r \<Rightarrow> (case bestRoute of
                    None \<Rightarrow> Some r
                  | Some b \<Rightarrow> if r_time r < r_time b then Some r else bestRoute))"

text \<open>The two nested loops over the start and goal candidates of one pattern.\<close>

fun searchPairs :: "station list \<Rightarrow> edge list \<Rightarrow> string list obj \<Rightarrow> nat obj obj
    \<Rightarrow> throughService list \<Rightarrow> (station \<times> station) list \<Rightarrow> found option
    \<Rightarrow> (error + found option) option" where
  "searchPairs stations edges stationStops stationOrderMap throughServices [] bestRoute =
     Some (Inr bestRoute)"
| "searchPairs stations edges stationStops stationOrderMap throughServices ((f, t) # rest) bestRoute =
     (case dijkstra stations edges (st_id f) (st_id t) stationStops stationOrderMap throughServices of
        None \<Rightarrow> None
      | Some (Inl err) \<Rightarrow> Some (Inl err)
      | Some (Inr rt) \<Rightarrow>
          searchPairs stations edges stationStops stationOrderMap throughServices rest
            (better rt bestRoute))"

text \<open>The loop over the patterns; an entry of \<open>allResults\<close> is the route found and the
  name of its pattern.\<close>

fun searchAll :: "station list \<Rightarrow> graph \<Rightarrow> throughService list \<Rightarrow> (station \<times> station) list
    \<Rightarrow> pattern list \<Rightarrow> (found \<times> string) list \<Rightarrow> (error + (found \<times> string) list) option" where
  "searchAll stations g throughServices pairs [] allResults = Some (Inr allResults)"
| "searchAll stations g throughServices pairs (pat # pats) allResults =
     (case searchPairs stations (modifiedEdges pat (g_edges g)) (g_stationStops g)
             (g_stationOrderMap g) throughServices pairs None of
        None \<Rightarrow> None
      | Some (Inl err) \<Rightarrow> Some (Inl err)
      | Some (Inr bestRoute) \<Rightarrow>
          searchAll stations g throughServices pairs pats
            (case bestRoute of None \<Rightarrow> allResults
                             | Some r \<Rightarrow> allResults @ [(r, pt_type pat)]))"

text \<open>The recomputation of time and distance from the unmodified edges.\<close>

definition addHop :: "edge list \<Rightarrow> string list \<Rightarrow> nat \<Rightarrow> real \<times> real \<Rightarrow> real \<times> real" where
  "addHop edges path i acc =
     (case findEdge edges (path ! i) (path ! (i + 1)) of
        None \<Rightarrow> acc
      | Some edge \<Rightarrow> (fst acc + e_time edge, snd acc + e_dist edge))"

definition trueCost :: "edge list \<Rightarrow> string list \<Rightarrow> real \<times> real" where
  "trueCost edges path = fold (addHop edges path) [0..<length path - 1] (0, 0)"

fun joinArrow :: "string list \<Rightarrow> string" where
  "joinArrow [] = []"
| "joinArrow [p] = p"
| "joinArrow (p # q # ps) = p @ ''->'' @ joinArrow (q # ps)"

definition recompute :: "edge list \<Rightarrow> found \<times> string \<Rightarrow> result" where
  "recompute edges res =
     \<lparr>res_path = r_path (fst res), res_time = fst (trueCost edges (r_path (fst res))),
      res_distance = snd (trueCost edges (r_path (fst res))), res_searchType = snd res\<rparr>"

definition keepUnique :: "result \<Rightarrow> result list \<times> string list \<Rightarrow> result list \<times> string list" where
  "keepUnique res st =
     (let pathKey = joinArrow (res_path res)
      in if pathKey \<notin> set (snd st) then (fst st @ [res], snd st @ [pathKey]) else st)"

definition uniquePaths :: "result list \<Rightarrow> result list" where
  "uniquePaths allResults = fst (fold keepUnique allResults ([], []))"

definition rankResults :: "edge list \<Rightarrow> (found \<times> string) list \<Rightarrow> result list" where
  "rankResults edges allResults =
     take 3 (sort_key res_time (uniquePaths (map (recompute edges) allResults)))"

text \<open>
  \<open>mofurail\<close> is the loaded data (\<open>None\<close> before it is loaded); \<open>fromName\<close> and
  \<open>toName\<close> are the trimmed values of the two input fields.
\<close>

definition searchRoute :: "(station list \<times> service list \<times> throughService list) option
    \<Rightarrow> string \<Rightarrow> string \<Rightarrow> (error + outcome) option" where
  "searchRoute mofurail fromName toName =
     (case mofurail of
        None \<Rightarrow> Some (Inr DataNotLoaded)
      | Some (stations, services, throughServices) \<Rightarrow>
          (case buildGraph stations services throughServices of
             Inl err \<Rightarrow> Some (Inl err)
           | Inr g \<Rightarrow>
               (let fromStations = filter (\<lambda>s. st_name s = fromName) stations;
                    toStations = filter (\<lambda>s. st_name s = toName) stations
                in if fromStations = [] \<or> toStations = [] then Some (Inr StationNotFound)
                   else (case searchAll stations g throughServices
                                 (List.product fromStations toStations) searchPatterns [] of
                           None \<Rightarrow> None
                         | Some (Inl err) \<Rightarrow> Some (Inl err)
                         | Some (Inr allResults) \<Rightarrow>
                             if allResults = [] then Some (Inr NoRouteFound)
                             else Some (Inr (Displayed (rankResults (g_edges g) allResults)))))))"

section \<open>Properties and sample inputs\<close>

subsection \<open>The mirror invariant\<close>





subsection \<open>An interchange of two companies at one point\<close>



definition localEdge :: "string \<Rightarrow> string \<Rightarrow> string \<Rightarrow> string \<Rightarrow> real \<Rightarrow> real \<Rightarrow> string \<Rightarrow> string \<Rightarrow> edge" where
  "localEdge a ta b tb tm d co li =
     \<lparr>e_from = nodeOf a ta, e_to = nodeOf b tb, e_time = tm, e_dist = d, e_type = ta,
      e_company = co, e_line = li\<rparr>"

definition changeEdge :: "string \<Rightarrow> string \<Rightarrow> string \<Rightarrow> string \<Rightarrow> real \<Rightarrow> string \<Rightarrow> string \<Rightarrow> edge" where
  "changeEdge a ta b tb tm co li =
     \<lparr>e_from = nodeOf a ta, e_to = nodeOf b tb, e_time = tm, e_dist = 0, e_type = TRANSFER,
      e_company = co, e_line = li\<rparr>"


subsection \<open>A route through a station that the station list lacks\<close>

text \<open>
  Two services run from \<open>A\<close> to \<open>B\<close> on one line, but the station list holds \<open>B\<close> only.
\<close>

definition orphanStations :: "station list" where
  "orphanStations =
     [\<lparr>st_id = ''B'', st_name = ''Beta'', st_x = 300, st_y = 0, st_company = ''C1'', st_line = ''L1''\<rparr>]"

definition orphanServices :: "service list" where
  "orphanServices =
     [\<lparr>sv_type = LOCAL,
       sv_routes = [\<lparr>rt_company = ''C1'', rt_line = ''L1'', rt_stops = [''A'', ''B'']\<rparr>]\<rparr>,
      \<lparr>sv_type = RAPID,
       sv_routes = [\<lparr>rt_company = ''C1'', rt_line = ''L1'', rt_stops = [''A'', ''B'']\<rparr>]\<rparr>]"

subsection \<open>The cost of a ride edge\<close>

definition hopDist :: "segment obj \<Rightarrow> string \<Rightarrow> real" where
  "hopDist sc k = (case objGet sc k of None \<Rightarrow> 0 | Some seg \<Rightarrow> seg_dist seg)"

definition hopTime :: "segment obj \<Rightarrow> string \<Rightarrow> real" where
  "hopTime sc k = (case objGet sc k of None \<Rightarrow> 0 | Some seg \<Rightarrow> seg_time seg)"

text \<open>
  The cache keys of the physical hops between two positions of a line, in line order;
  a hop that the cache lacks counts as zero.
\<close>

definition hopsBetween :: "string list \<Rightarrow> nat \<Rightarrow> nat \<Rightarrow> string list" where
  "hopsBetween full i j = map (\<lambda>k. segKey (full ! k) (full ! Suc k)) [min i j..<max i j]"

definition lineCache :: "segment obj obj \<Rightarrow> route \<Rightarrow> segment obj" where
  "lineCache segmentCache r =
     (case objGet segmentCache (lineKeyOf (rt_company r) (rt_line r)) of None \<Rightarrow> [] | Some c \<Rightarrow> c)"

text \<open>
  \<open>e\<close> is a ride edge of service type \<open>ty\<close> on route \<open>r\<close> between two stations of the
  line's ordinal sequence; \<open>timeOf\<close> gives the time such an edge should have, from its
  distance and the times of its hops.
\<close>

definition rideBetween :: "(real \<Rightarrow> real list \<Rightarrow> real) \<Rightarrow> nat obj obj \<Rightarrow> segment obj obj
                             \<Rightarrow> string \<Rightarrow> route \<Rightarrow> edge \<Rightarrow> bool" where
  "rideBetween timeOf stationOrderMap segmentCache ty r e =
     (\<exists>lineOrderMap fromId toId idxFrom idxTo.
        objGet stationOrderMap (lineKeyOf (rt_company r) (rt_line r)) = Some lineOrderMap \<and>
        indexOf (fullLine lineOrderMap) fromId = Some idxFrom \<and>
        indexOf (fullLine lineOrderMap) toId = Some idxTo \<and>
        ((e_from e = nodeOf fromId ty \<and> e_to e = nodeOf toId ty) \<or>
         (e_from e = nodeOf toId ty \<and> e_to e = nodeOf fromId ty)) \<and>
        e_type e = ty \<and> e_company e = rt_company r \<and> e_line e = rt_line r \<and>
        e_dist e = sum_list (map (hopDist (lineCache segmentCache r))
                               (hopsBetween (fullLine lineOrderMap) idxFrom idxTo)) \<and>
        e_time e = timeOf (e_dist e)
                     (map (hopTime (lineCache segmentCache r))
                        (hopsBetween (fullLine lineOrderMap) idxFrom idxTo)))"

text \<open>The code: the distance at train speed and one dwell, however many hops.\<close>

definition rideCost :: "nat obj obj \<Rightarrow> segment obj obj \<Rightarrow> string \<Rightarrow> route \<Rightarrow> edge \<Rightarrow> bool" where
  "rideCost = rideBetween (\<lambda>d hopTimes. d / TRAIN_SPEED + STOP_TIME)"

text \<open>The specification: the sum of the cached times of the hops.\<close>

definition rideCostClaimed :: "nat obj obj \<Rightarrow> segment obj obj \<Rightarrow> string \<Rightarrow> route \<Rightarrow> edge \<Rightarrow> bool" where
  "rideCostClaimed = rideBetween (\<lambda>d hopTimes. sum_list hopTimes)"

subsection \<open>A line with a stopping and a rapid service\<close>

text \<open>
  Stations \<open>A\<close>, \<open>B\<close>, \<open>C\<close>, \<open>D\<close> lie 300 m apart on one line, whose geometry the
  pseudo service teaches. The local service stops at \<open>A\<close>, \<open>B\<close>, \<open>C\<close>; the rapid
  service runs from \<open>A\<close> to \<open>C\<close> without stopping at \<open>B\<close>, and on to \<open>D\<close>.
\<close>

definition lineStation :: "string \<Rightarrow> real \<Rightarrow> station" where
  "lineStation i px = \<lparr>st_id = i, st_name = i, st_x = px, st_y = 0, st_company = ''C1'', st_line = ''L1''\<rparr>"

definition lineRoute :: "string list \<Rightarrow> route" where
  "lineRoute stops = \<lparr>rt_company = ''C1'', rt_line = ''L1'', rt_stops = stops\<rparr>"

definition expressStations :: "station list" where
  "expressStations =
     [lineStation ''A'' 0, lineStation ''B'' 300, lineStation ''C'' 600, lineStation ''D'' 900]"

definition expressServices :: "service list" where
  "expressServices =
     [\<lparr>sv_type = DUMMY, sv_routes = [lineRoute [''A'', ''B'', ''C'', ''D'']]\<rparr>,
      \<lparr>sv_type = LOCAL, sv_routes = [lineRoute [''A'', ''B'', ''C'']]\<rparr>,
      \<lparr>sv_type = RAPID, sv_routes = [lineRoute [''A'', ''C'', ''D'']]\<rparr>]"

definition expressLineOrder :: "nat obj" where
  "expressLineOrder = [(''A'', 0), (''B'', 1), (''C'', 2), (''D'', 3)]"

definition expressOrder :: "nat obj obj" where
  "expressOrder = [(''C1-L1'', expressLineOrder)]"

definition expressCache :: "segment obj obj" where
  "expressCache =
     [(''C1-L1'', [(''A->B'', \<lparr>seg_dist = 300, seg_time = 25\<rparr>),
                   (''B->A'', \<lparr>seg_dist = 300, seg_time = 25\<rparr>),
                   (''B->C'', \<lparr>seg_dist = 300, seg_time = 25\<rparr>),
                   (''C->B'', \<lparr>seg_dist = 300, seg_time = 25\<rparr>),
                   (''C->D'', \<lparr>seg_dist = 300, seg_time = 25\<rparr>),
                   (''D->C'', \<lparr>seg_dist = 300, seg_time = 25\<rparr>)])]"

definition expressRides :: "edge list" where
  "expressRides =
     [localEdge ''A'' LOCAL ''B'' LOCAL 25 300 ''C1'' ''L1'',
      localEdge ''B'' LOCAL ''A'' LOCAL 25 300 ''C1'' ''L1'',
      localEdge ''B'' LOCAL ''C'' LOCAL 25 300 ''C1'' ''L1'',
      localEdge ''C'' LOCAL ''B'' LOCAL 25 300 ''C1'' ''L1'',
      localEdge ''A'' RAPID ''C'' RAPID 45 600 ''C1'' ''L1'',
      localEdge ''C'' RAPID ''A'' RAPID 45 600 ''C1'' ''L1'',
      localEdge ''C'' RAPID ''D'' RAPID 25 300 ''C1'' ''L1'',
      localEdge ''D'' RAPID ''C'' RAPID 25 300 ''C1'' ''L1'']"

definition expressStops :: "string list obj" where
  "expressStops =
     [(''A'', [LOCAL, RAPID]), (''B'', [LOCAL]), (''C'', [LOCAL, RAPID]), (''D'', [RAPID])]"

definition expressTransfers :: "edge list" where
  "expressTransfers =
     [changeEdge ''A'' LOCAL ''A'' RAPID 15 ''C1'' ''L1'',
      changeEdge ''A'' RAPID ''A'' LOCAL 15 ''C1'' ''L1'',
      changeEdge ''C'' LOCAL ''C'' RAPID 15 ''C1'' ''L1'',
      changeEdge ''C'' RAPID ''C'' LOCAL 15 ''C1'' ''L1'']"

definition expressGraph :: graph where
  "expressGraph =
     \<lparr>g_edges = expressRides @ expressTransfers,
      g_stationStops = expressStops,
      g_stationOrderMap = expressOrder\<rparr>"


subsection \<open>A through service at the interchange\<close>


definition throughEdge :: "string \<Rightarrow> string \<Rightarrow> string \<Rightarrow> string \<Rightarrow> string \<Rightarrow> edge" where
  "throughEdge a ta b tb co =
     \<lparr>e_from = nodeOf a ta, e_to = nodeOf b tb, e_time = 1, e_dist = 0, e_type = THROUGH,
      e_company = co, e_line = THROUGH\<rparr>"


subsection \<open>The line with the suppressed first local hop\<close>

text \<open>
  The local service of the source's exception: its ride from \<open>IK01\<close> to \<open>IK02\<close> is
  suppressed, so \<open>IK02\<close> is reached from \<open>IK01\<close> only by the rapid service to
  \<open>IK03\<close> and the local service back.
\<close>

definition ikStations :: "station list" where
  "ikStations = [lineStation ''IK01'' 0, lineStation ''IK02'' 300, lineStation ''IK03'' 600]"

definition ikServices :: "service list" where
  "ikServices =
     [\<lparr>sv_type = LOCAL, sv_routes = [lineRoute [''IK01'', ''IK02'', ''IK03'']]\<rparr>,
      \<lparr>sv_type = RAPID, sv_routes = [lineRoute [''IK01'', ''IK03'']]\<rparr>]"

definition ikGraph :: graph where
  "ikGraph =
     \<lparr>g_edges =
        [localEdge ''IK02'' LOCAL ''IK03'' LOCAL 25 300 ''C1'' ''L1'',
         localEdge ''IK03'' LOCAL ''IK02'' LOCAL 25 300 ''C1'' ''L1'',
         localEdge ''IK01'' RAPID ''IK03'' RAPID 45 600 ''C1'' ''L1'',
         localEdge ''IK03'' RAPID ''IK01'' RAPID 45 600 ''C1'' ''L1'',
         changeEdge ''IK03'' LOCAL ''IK03'' RAPID 15 ''C1'' ''L1'',
         changeEdge ''IK03'' RAPID ''IK03'' LOCAL 15 ''C1'' ''L1''],
      g_stationStops = [(''IK02'', [LOCAL]), (''IK03'', [LOCAL, RAPID]), (''IK01'', [RAPID])],
      g_stationOrderMap = [(''C1-L1'', [(''IK01'', 0), (''IK02'', 1), (''IK03'', 2)])]\<rparr>"

subsection \<open>The results of a search\<close>


text \<open>The candidate pairs of a query, and the best route of one pattern over them.\<close>

definition candidatePairs :: "station list \<Rightarrow> string \<Rightarrow> string \<Rightarrow> (station \<times> station) list" where
  "candidatePairs stations fromName toName =
     List.product (filter (\<lambda>s. st_name s = fromName) stations)
                  (filter (\<lambda>s. st_name s = toName) stations)"




subsection \<open>The invariant of the search loop\<close>

text \<open>
  A node is settled when it has a time and the queue holds no entry with that time for
  it: its entry has been popped and its edges relaxed.
\<close>

definition settled :: "dstate \<Rightarrow> string \<Rightarrow> bool" where
  "settled st n = (\<exists>t. d_times st n = Some t \<and> (n, t) \<notin> set (d_pq st))"

definition edgesOK :: "edge list \<Rightarrow> bool" where
  "edgesOK E = list_all (\<lambda>e. 0 < e_time e \<and> CHR ''_'' \<in> set (e_to e)) E"

definition closedUnder :: "edge list \<Rightarrow> string set \<Rightarrow> bool" where
  "closedUnder E N = (\<forall>e\<in>set E. e_from e \<in> N \<longrightarrow> e_to e \<in> N)"

definition queueInv :: "dstate \<Rightarrow> bool" where
  "queueInv st =
     (distinct (d_pq st) \<and>
      (\<forall>n t. (n, t) \<in> set (d_pq st) \<longrightarrow> (\<exists>tn. d_times st n = Some tn \<and> tn \<le> t)) \<and>
      (\<forall>n tn m t. d_times st n = Some tn \<and> (n, tn) \<notin> set (d_pq st) \<and> (m, t) \<in> set (d_pq st)
           \<longrightarrow> tn \<le> t))"

definition startInv :: "string set \<Rightarrow> dstate \<Rightarrow> bool" where
  "startInv S st =
     ((\<forall>s\<in>S. d_times st s = Some 0 \<and> d_prev st s = None \<and> d_distances st s = Some 0) \<and>
      (\<forall>n t. d_times st n = Some t \<longrightarrow> 0 \<le> t))"

definition prevInv :: "edge list \<Rightarrow> dstate \<Rightarrow> bool" where
  "prevInv E st =
     (\<forall>m n. d_prev st m = Some n \<longrightarrow>
        settled st n \<and>
        (\<exists>e\<in>set E. e_from e = n \<and> e_to e = m \<and> \<not> consecutiveTransfer E (d_prev st) n e))"

text \<open>
  The invariant of the main loop, for the edge list \<open>E\<close>, the start nodes \<open>S\<close> and a
  set \<open>N\<close> of nodes closed under the edges: the queue holds each entry once, no entry
  is below its node's time, and a settled node's time is below every entry; the start
  nodes keep time 0 and no predecessor; and every predecessor is settled and was joined
  by an edge that passed the check against consecutive transfers.
\<close>

definition searchInv :: "edge list \<Rightarrow> string set \<Rightarrow> string set \<Rightarrow> dstate \<Rightarrow> bool" where
  "searchInv E S N st =
     (dom (d_times st) \<subseteq> N \<and> queueInv st \<and> startInv S st \<and> prevInv E st)"

text \<open>The invariant while the edges out of the popped entry \<open>(n, tn)\<close> are relaxed.\<close>

definition relaxInv :: "edge list \<Rightarrow> string set \<Rightarrow> string set \<Rightarrow> string \<Rightarrow> real \<Rightarrow> dstate \<Rightarrow> bool" where
  "relaxInv E S N n tn st =
     (searchInv E S N st \<and> d_times st n = Some tn \<and> (n, tn) \<notin> set (d_pq st) \<and>
      (\<forall>m t. (m, t) \<in> set (d_pq st) \<longrightarrow> tn \<le> t) \<and>
      (\<forall>x tx. d_times st x = Some tx \<and> (x, tx) \<notin> set (d_pq st) \<longrightarrow> tx \<le> tn))"

definition unsettledIn :: "string set \<Rightarrow> dstate \<Rightarrow> string set" where
  "unsettledIn N st = {x \<in> N. \<not> settled st x}"

subsection \<open>Presence nodes and reachability\<close>

definition stopTypes :: "string list obj \<Rightarrow> string \<Rightarrow> string list" where
  "stopTypes stationStops stationId =
     (case objGet stationStops stationId of None \<Rightarrow> [] | Some ts \<Rightarrow> ts)"

definition presenceNodes :: "string list obj \<Rightarrow> string \<Rightarrow> string list" where
  "presenceNodes stationStops stationId = map (nodeOf stationId) (stopTypes stationStops stationId)"

definition edgeRel :: "edge list \<Rightarrow> (string \<times> string) set" where
  "edgeRel E = (\<lambda>e. (e_from e, e_to e)) ` set E"

definition reachableFrom :: "edge list \<Rightarrow> string set \<Rightarrow> string set" where
  "reachableFrom E S = {v. \<exists>s\<in>S. (s, v) \<in> (edgeRel E)\<^sup>*}"

subsection \<open>What the builder guarantees to the search\<close>

definition valuesAll :: "('v \<Rightarrow> bool) \<Rightarrow> 'v obj \<Rightarrow> bool" where
  "valuesAll P ob = list_all (\<lambda>kv. P (snd kv)) ob"

definition goodEdge :: "edge \<Rightarrow> bool" where
  "goodEdge e = (0 < e_time e \<and> CHR ''_'' \<in> set (e_from e) \<and> CHR ''_'' \<in> set (e_to e))"

definition segNonneg :: "segment \<Rightarrow> bool" where
  "segNonneg seg = (0 \<le> seg_dist seg)"

definition rideState :: "edge list \<times> string list obj \<Rightarrow> bool" where
  "rideState st = (list_all goodEdge (fst st) \<and> valuesAll distinct (snd st))"

subsection \<open>Two lines without a connection\<close>

definition unreachable :: "graph \<Rightarrow> string \<Rightarrow> string \<Rightarrow> bool" where
  "unreachable g startStationId goalStationId =
     (\<forall>a\<in>set (presenceNodes (g_stationStops g) startStationId).
      \<forall>b\<in>set (presenceNodes (g_stationStops g) goalStationId).
        (a, b) \<notin> (edgeRel (g_edges g))\<^sup>*)"

definition islandStations :: "station list" where
  "islandStations =
     [\<lparr>st_id = ''A'', st_name = ''Alpha'', st_x = 0, st_y = 0, st_company = ''C1'', st_line = ''L1''\<rparr>,
      \<lparr>st_id = ''B'', st_name = ''Beta'', st_x = 300, st_y = 0, st_company = ''C1'', st_line = ''L1''\<rparr>,
      \<lparr>st_id = ''X'', st_name = ''Xi'', st_x = 1000, st_y = 0, st_company = ''C2'', st_line = ''L2''\<rparr>,
      \<lparr>st_id = ''Y'', st_name = ''Ypsilon'', st_x = 1300, st_y = 0, st_company = ''C2'', st_line = ''L2''\<rparr>]"

definition islandServices :: "service list" where
  "islandServices =
     [\<lparr>sv_type = LOCAL,
       sv_routes = [\<lparr>rt_company = ''C1'', rt_line = ''L1'', rt_stops = [''A'', ''B'']\<rparr>,
                    \<lparr>rt_company = ''C2'', rt_line = ''L2'', rt_stops = [''X'', ''Y'']\<rparr>]\<rparr>]"

definition islandGraph :: graph where
  "islandGraph =
     \<lparr>g_edges =
        [localEdge ''A'' LOCAL ''B'' LOCAL 25 300 ''C1'' ''L1'',
         localEdge ''B'' LOCAL ''A'' LOCAL 25 300 ''C1'' ''L1'',
         localEdge ''X'' LOCAL ''Y'' LOCAL 25 300 ''C2'' ''L2'',
         localEdge ''Y'' LOCAL ''X'' LOCAL 25 300 ''C2'' ''L2''],
      g_stationStops = [(''A'', [LOCAL]), (''B'', [LOCAL]), (''X'', [LOCAL]), (''Y'', [LOCAL])],
      g_stationOrderMap = [(''C1-L1'', [(''A'', 0), (''B'', 1)]), (''C2-L2'', [(''X'', 0), (''Y'', 1)])]\<rparr>"

subsection \<open>Transfers in a row\<close>










subsection \<open>Two lines between the same two stations\<close>






section \<open>General lemmas\<close>

lemma fold_invariant:
  assumes "P st" and "\<And>x s. x \<in> set xs \<Longrightarrow> P s \<Longrightarrow> P (f x s)"
  shows "P (fold f xs st)"
  using assms by (induction xs arbitrary: st) auto

section \<open>Evaluation of the builder\<close>

lemma nodeOf_inject: "nodeOf a ty = nodeOf b ty \<longleftrightarrow> a = b"
  by (simp add: nodeOf_def)

lemmas build_defs =
  buildGraph_def learnTopology_def learnService_def learnRoute_def learnStop_def isBaseRoute_def lineKeyOf_def
  segKey_def objGet_def findStation_def euclid_def serviceEdges_def rideService_def rideRoute_def rideStep_def
  fullLine_def ownKeys_def arrayIndex_def isDigit_def accumulateDist_def hopKeys_def
  addSegment_def recordStop_def setAdd_def rideEdge_def nodeOf_def transferEdges_def
  separatedAtNY10_def transferEdge_def pairEdges_def samePointAll_def walkAll_def samePointEdges_def walkEdges_def
  isThroughPair_def findRule_def constant_defs Let_def

lemmas sample_defs = localEdge_def changeEdge_def throughEdge_def lineStation_def lineRoute_def


lemma fold_addSegment:
  "fold (addSegment sc) ks acc = acc + sum_list (map (hopDist sc) ks)"
  by (induction ks arbitrary: acc) (auto simp: addSegment_def hopDist_def split: option.splits)

lemmas dijkstra_defs =
  dijkstra_def dijkstraLoop.simps walkBack.simps relaxEdge_def blocked_def improve_def
  initialState_def seedStart_def pickGoal_def consecutiveTransfer_def findEdge_def
  throughBlocked_def ruleMatches_def arrivalMismatch_def jsGreater_def platformUTurn_def
  idOfNode_def typeOfNode_def nodeOf_def objGet_def lineKeyOf_def findStation_def Let_def


lemma express_learnTopology:
  "learnTopology expressStations expressServices = (expressOrder, expressCache)"
  by (simp add: expressStations_def expressServices_def expressOrder_def expressLineOrder_def
        expressCache_def build_defs sample_defs literal_defs)

lemma express_serviceEdges:
  "serviceEdges expressOrder expressCache expressServices = (expressRides, expressStops)"
  by (simp add: expressServices_def expressOrder_def expressLineOrder_def expressCache_def
        expressRides_def expressStops_def build_defs sample_defs literal_defs)

lemma express_buildGraph:
  "buildGraph expressStations expressServices [] = Inr expressGraph"
proof -
  have "transferEdges expressStations expressStops expressRides
        = Inr (expressRides @ expressTransfers)"
    by (simp add: expressStations_def expressStops_def expressTransfers_def transferEdges_def
          ownKeys_def arrayIndex_def isDigit_def objGet_def findStation_def transferEdge_def
          separatedAtNY10_def constant_defs sample_defs)
  moreover have "proximityEdges [] expressStops expressStations = []"
    by (simp add: expressStations_def expressStops_def objGet_def pairEdges_def euclid_def
          samePointAll_def walkAll_def constant_defs sample_defs)
  ultimately show ?thesis
    by (simp add: buildGraph_def express_learnTopology express_serviceEdges expressGraph_def)
qed









lemma ik_buildGraph: "buildGraph ikStations ikServices [] = Inr ikGraph"
  by (simp add: ikStations_def ikServices_def ikGraph_def build_defs sample_defs literal_defs)








section \<open>Claim C1: edges come in mirrored pairs\<close>

























section \<open>Claim C3: references to missing stations\<close>

text \<open>
  C3 at a failing input. Station \<open>A\<close> is served by two services and is absent from the
  station list: the transfer pass looks the station up, finds nothing and reads its
  company, which raises a TypeError. The builder does not run to completion.
\<close>

theorem buildGraph_missing_station_raises:
  "buildGraph orphanStations orphanServices [] = Inl TypeError"
  by (simp add: orphanStations_def orphanServices_def build_defs literal_defs)

section \<open>Claim C4: the cost of a ride edge\<close>

lemma map_upt_Suc_shift: "map f [Suc a..<Suc b] = map (\<lambda>k. f (Suc k)) [a..<b]"
  by (simp only: map_Suc_upt[symmetric] map_map comp_def)

lemma sum_list_hopKeys:
  "sum_list (map f (hopKeys full i j)) = (sum_list (map f (hopsBetween full i j)) :: real)"
proof (cases "j > i")
  case True
  then show ?thesis
    by (simp add: hopKeys_def hopsBetween_def min_def max_def)
next
  case False
  have eq: "map (\<lambda>k. segKey (full ! (k - 1)) (full ! k)) [Suc j..<Suc i]
        = map (\<lambda>k. segKey (full ! k) (full ! Suc k)) [j..<i]"
    by (simp add: map_upt_Suc_shift del: upt_Suc)
  have "hopKeys full i j = map (\<lambda>k. segKey (full ! (k - 1)) (full ! k)) (rev [Suc j..<Suc i])"
    using False by (simp add: hopKeys_def del: upt_Suc)
  also have "\<dots> = rev (map (\<lambda>k. segKey (full ! (k - 1)) (full ! k)) [Suc j..<Suc i])"
    by (simp only: rev_map)
  also have "\<dots> = rev (map (\<lambda>k. segKey (full ! k) (full ! Suc k)) [j..<i])"
    by (simp only: eq)
  also have "\<dots> = rev (hopsBetween full i j)"
    using False by (simp add: hopsBetween_def min_def max_def)
  finally have "hopKeys full i j = rev (hopsBetween full i j)" .
  then show ?thesis
    by (simp add: rev_map[symmetric] sum_list_rev)
qed

lemma accumulateDist_sum:
  "accumulateDist sc full i j = sum_list (map (hopDist sc) (hopsBetween full i j))"
  by (simp add: accumulateDist_def fold_addSegment sum_list_hopKeys)

lemma rideStep_cost:
  assumes "objGet om (lineKeyOf (rt_company r) (rt_line r)) = Some lom"
    and "list_all Q (fst st)"
    and "\<And>e. rideCost om segc ty r e \<Longrightarrow> Q e"
  shows "list_all Q (fst (rideStep ty r (lineCache segc r) (fullLine lom) fromId toId st))"
proof (cases "ty = LOCAL \<and> fromId = ''IK01'' \<and> toId = ''IK02''")
  case True
  with assms(2) show ?thesis by (simp add: rideStep_def)
next
  case False
  show ?thesis
  proof (cases "indexOf (fullLine lom) fromId")
    case None
    with assms(2) False show ?thesis by (auto simp: rideStep_def)
  next
    case (Some i)
    show ?thesis
    proof (cases "indexOf (fullLine lom) toId")
      case None
      with assms(2) False Some show ?thesis by (auto simp: rideStep_def)
    next
      case (Some j)
      let ?d = "accumulateDist (lineCache segc r) (fullLine lom) i j"
      have "rideCost om segc ty r (rideEdge ty r (nodeOf fromId ty) (nodeOf toId ty) ?d)"
        unfolding rideCost_def rideBetween_def
        using assms(1) \<open>indexOf (fullLine lom) fromId = Some i\<close> Some
        by (intro exI[of _ lom] exI[of _ fromId] exI[of _ toId] exI[of _ i] exI[of _ j])
           (simp add: rideEdge_def accumulateDist_sum)
      moreover have "rideCost om segc ty r (rideEdge ty r (nodeOf toId ty) (nodeOf fromId ty) ?d)"
        unfolding rideCost_def rideBetween_def
        using assms(1) \<open>indexOf (fullLine lom) fromId = Some i\<close> Some
        by (intro exI[of _ lom] exI[of _ fromId] exI[of _ toId] exI[of _ i] exI[of _ j])
           (simp add: rideEdge_def accumulateDist_sum)
      ultimately show ?thesis
        using assms(2,3) False \<open>indexOf (fullLine lom) fromId = Some i\<close> Some
        by (auto simp: rideStep_def Let_def)
    qed
  qed
qed

lemma rideStops_cost:
  assumes "objGet om (lineKeyOf (rt_company r) (rt_line r)) = Some lom"
    and "\<And>e. rideCost om segc ty r e \<Longrightarrow> Q e"
  shows "list_all Q (fst st)
         \<Longrightarrow> list_all Q (fst (rideStops ty r (lineCache segc r) (fullLine lom) stops st))"
proof (induction stops arbitrary: st)
  case Nil
  then show ?case by simp
next
  case (Cons fromId rest)
  show ?case
  proof (cases rest)
    case Nil
    with Cons.prems show ?thesis by simp
  next
    case (Cons toId rest')
    have "list_all Q (fst (rideStep ty r (lineCache segc r) (fullLine lom) fromId toId st))"
      using rideStep_cost[OF assms(1) Cons.prems assms(2)] .
    from Cons.IH[OF this] show ?thesis
      by (simp add: Cons)
  qed
qed

lemma rideRoute_cost:
  assumes "\<And>e. rideCost om segc ty r e \<Longrightarrow> Q e" and "list_all Q (fst st)"
  shows "list_all Q (fst (rideRoute om segc ty r st))"
proof (cases "objGet om (lineKeyOf (rt_company r) (rt_line r))")
  case None
  with assms(2) show ?thesis by (simp add: rideRoute_def)
next
  case (Some lom)
  from rideStops_cost[OF Some assms(1) assms(2)] Some show ?thesis
    by (simp add: rideRoute_def lineCache_def)
qed

lemma rideService_cost:
  assumes "sv \<in> set services"
    and "list_all (\<lambda>e. \<exists>sv\<in>set services. \<exists>r\<in>set (sv_routes sv). rideCost om segc (sv_type sv) r e)
           (fst st)"
  shows "list_all (\<lambda>e. \<exists>sv\<in>set services. \<exists>r\<in>set (sv_routes sv). rideCost om segc (sv_type sv) r e)
           (fst (rideService om segc sv st))"
proof (cases "sv_type sv = DUMMY")
  case True
  with assms(2) show ?thesis by (simp add: rideService_def)
next
  case False
  have "list_all (\<lambda>e. \<exists>sv\<in>set services. \<exists>r\<in>set (sv_routes sv). rideCost om segc (sv_type sv) r e)
          (fst (fold (rideRoute om segc (sv_type sv)) (sv_routes sv) st))"
  proof (rule fold_invariant, goal_cases)
    case 1
    show ?case by (rule assms(2))
  next
    case (2 r s)
    show ?case
      by (rule rideRoute_cost[OF _ 2(2)]) (use 2(1) assms(1) in blast)
  qed
  with False show ?thesis by (simp add: rideService_def)
qed

lemma serviceEdges_cost:
  "list_all (\<lambda>e. \<exists>sv\<in>set services. \<exists>r\<in>set (sv_routes sv). rideCost om segc (sv_type sv) r e)
     (fst (serviceEdges om segc services))"
  unfolding serviceEdges_def
  by (rule fold_invariant) (simp_all add: rideService_cost)

text \<open>
  C4, as the code has it. Every edge that the service edge pass of \<open>buildGraph\<close>
  generates is the ride edge of a stop pair whose two stations occur in the ordinal
  sequence of the line; its distance is the sum of the cached distances of the physical
  hops between them (a hop missing from the cache adds nothing), and its time is that
  distance at train speed plus one dwell. The time is not the sum of the hops' cached
  times, each of which holds a dwell of its own.
\<close>

theorem serviceEdges_ride_cost:
  assumes "e \<in> set (fst (serviceEdges (fst (learnTopology stations services))
                              (snd (learnTopology stations services)) services))"
  shows "\<exists>sv r. sv \<in> set services \<and> r \<in> set (sv_routes sv) \<and>
           rideCost (fst (learnTopology stations services))
             (snd (learnTopology stations services)) (sv_type sv) r e"
  using serviceEdges_cost[of services "fst (learnTopology stations services)"
          "snd (learnTopology stations services)"] assms
  unfolding list_all_iff by blast

theorem serviceEdges_ride_cost_witness:
  "localEdge ''A'' RAPID ''C'' RAPID 45 600 ''C1'' ''L1''
     \<in> set (fst (serviceEdges (fst (learnTopology expressStations expressServices))
                   (snd (learnTopology expressStations expressServices)) expressServices)) \<and>
   (\<exists>sv r. sv \<in> set expressServices \<and> r \<in> set (sv_routes sv) \<and>
      rideCost expressOrder expressCache (sv_type sv) r
        (localEdge ''A'' RAPID ''C'' RAPID 45 600 ''C1'' ''L1''))"
proof -
  have mem: "localEdge ''A'' RAPID ''C'' RAPID 45 600 ''C1'' ''L1''
     \<in> set (fst (serviceEdges (fst (learnTopology expressStations expressServices))
                   (snd (learnTopology expressStations expressServices)) expressServices))"
    by (simp add: express_learnTopology express_serviceEdges expressRides_def)
  from serviceEdges_ride_cost[OF mem] mem show ?thesis
    by (simp add: express_learnTopology)
qed

lemma express_fullLine: "fullLine expressLineOrder = [''A'', ''B'', ''C'', ''D'']"
  by (simp add: expressLineOrder_def fullLine_def ownKeys_def arrayIndex_def isDigit_def objGet_def)

lemma express_lineOrder:
  "objGet expressOrder (lineKeyOf (rt_company (lineRoute stops)) (rt_line (lineRoute stops)))
   = Some expressLineOrder"
  by (simp add: expressOrder_def objGet_def lineKeyOf_def lineRoute_def)

lemma express_hopTimes:
  "map (hopTime (lineCache expressCache (lineRoute stops))) [''A->B'', ''B->C''] = [25, 25]"
  by (simp add: hopTime_def lineCache_def expressCache_def objGet_def lineKeyOf_def lineRoute_def)

lemma express_claimed_time:
  assumes "rideCostClaimed expressOrder expressCache RAPID (lineRoute [''A'', ''C'', ''D'']) e"
    and "e_from e = nodeOf ''A'' RAPID" and "e_to e = nodeOf ''C'' RAPID"
  shows "e_time e = 50"
proof -
  let ?full = "[''A'', ''B'', ''C'', ''D'']"
  let ?cache = "lineCache expressCache (lineRoute [''A'', ''C'', ''D''])"
  from assms(1) obtain lom fromId toId idxFrom idxTo where
    l: "objGet expressOrder (lineKeyOf (rt_company (lineRoute [''A'', ''C'', ''D'']))
          (rt_line (lineRoute [''A'', ''C'', ''D'']))) = Some lom" and
    i: "indexOf (fullLine lom) fromId = Some idxFrom" and
    j: "indexOf (fullLine lom) toId = Some idxTo" and
    n: "(e_from e = nodeOf fromId RAPID \<and> e_to e = nodeOf toId RAPID) \<or>
        (e_from e = nodeOf toId RAPID \<and> e_to e = nodeOf fromId RAPID)" and
    t: "e_time e = sum_list (map (hopTime ?cache) (hopsBetween (fullLine lom) idxFrom idxTo))"
    unfolding rideCostClaimed_def rideBetween_def by blast
  from l have lom: "fullLine lom = ?full"
    by (simp add: express_lineOrder express_fullLine)
  from n assms(2,3) have "(fromId = ''A'' \<and> toId = ''C'') \<or> (fromId = ''C'' \<and> toId = ''A'')"
    by (auto simp: nodeOf_inject)
  with i j have "(idxFrom = 0 \<and> idxTo = 2) \<or> (idxFrom = 2 \<and> idxTo = 0)"
    unfolding lom by auto
  then have "hopsBetween ?full idxFrom idxTo = [''A->B'', ''B->C'']"
    by (auto simp: hopsBetween_def segKey_def upt_rec)
  with t show ?thesis
    by (simp only: lom express_hopTimes) simp
qed

text \<open>
  C4 as stated fails on the line above: the rapid edge from \<open>A\<close> to \<open>C\<close> takes
  600 / 15 + 5 = 45 seconds, while the cached times of its two hops add up to 50.
\<close>

theorem ride_time_counterexample:
  "localEdge ''A'' RAPID ''C'' RAPID 45 600 ''C1'' ''L1''
     \<in> set (fst (serviceEdges (fst (learnTopology expressStations expressServices))
                   (snd (learnTopology expressStations expressServices)) expressServices)) \<and>
   \<not> (\<exists>sv r. sv \<in> set expressServices \<and> r \<in> set (sv_routes sv) \<and>
          rideCostClaimed (fst (learnTopology expressStations expressServices))
            (snd (learnTopology expressStations expressServices)) (sv_type sv) r
            (localEdge ''A'' RAPID ''C'' RAPID 45 600 ''C1'' ''L1''))"
proof -
  let ?e = "localEdge ''A'' RAPID ''C'' RAPID 45 600 ''C1'' ''L1''"
  have mem: "?e \<in> set (fst (serviceEdges (fst (learnTopology expressStations expressServices))
                   (snd (learnTopology expressStations expressServices)) expressServices))"
    by (simp add: express_learnTopology express_serviceEdges expressRides_def)
  have "\<not> rideCostClaimed expressOrder expressCache (sv_type sv) r ?e"
    if "sv \<in> set expressServices" and "r \<in> set (sv_routes sv)" for sv r
  proof
    assume c: "rideCostClaimed expressOrder expressCache (sv_type sv) r ?e"
    then have ty: "sv_type sv = RAPID"
      by (auto simp: rideCostClaimed_def rideBetween_def localEdge_def)
    have "LOCAL \<noteq> RAPID" "DUMMY \<noteq> RAPID"
      by (simp_all add: literal_defs)
    with that ty have "r = lineRoute [''A'', ''C'', ''D'']"
      by (auto simp: expressServices_def)
    with c ty have "e_time ?e = 50"
      by (intro express_claimed_time) (simp_all add: localEdge_def)
    then show False
      by (simp add: localEdge_def)
  qed
  with mem show ?thesis
    by (auto simp: express_learnTopology)
qed


section \<open>Claim C5: reported time and distance\<close>













section \<open>Claim C6: the displayed list is deduplicated, sorted, short and labelled\<close>















section \<open>Claim C7: rides outside the range of start and goal\<close>

text \<open>
  C7 at a failing input. The source announces the constraint in a comment and leaves
  its block empty. From \<open>IK01\<close> (ordinal 0) to \<open>IK02\<close> (ordinal 1) the search rides the
  rapid service to \<open>IK03\<close> (ordinal 2), outside the range of start and goal, and returns
  the path through it; with the range check every ride out of \<open>IK01\<close> would be rejected.
\<close>

theorem dijkstra_ride_leaves_range:
  "buildGraph ikStations ikServices [] = Inr ikGraph \<and>
   dijkstra ikStations (g_edges ikGraph) ''IK01'' ''IK02'' (g_stationStops ikGraph)
     (g_stationOrderMap ikGraph) []
   = Some (Inr (Some \<lparr>r_path = [nodeOf ''IK01'' RAPID, nodeOf ''IK03'' RAPID,
                                 nodeOf ''IK03'' LOCAL, nodeOf ''IK02'' LOCAL],
                       r_time = 85, r_distance = Some 900\<rparr>))"
proof -
  have "dijkstra ikStations (g_edges ikGraph) ''IK01'' ''IK02'' (g_stationStops ikGraph)
     (g_stationOrderMap ikGraph) []
   = Some (Inr (Some \<lparr>r_path = [nodeOf ''IK01'' RAPID, nodeOf ''IK03'' RAPID,
                                 nodeOf ''IK03'' LOCAL, nodeOf ''IK02'' LOCAL],
                       r_time = 85, r_distance = Some 900\<rparr>))"
    by (simp add: ikGraph_def ikStations_def dijkstra_defs sample_defs literal_defs)
  with ik_buildGraph show ?thesis by simp
qed

section \<open>Claim C9: a through edge needs a rule that starts at its source\<close>










section \<open>The search loop returns\<close>

lemma consecutiveTransfer_cong:
  "prv n = prv' n \<Longrightarrow> consecutiveTransfer E prv n e = consecutiveTransfer E prv' n e"
  by (simp add: consecutiveTransfer_def)

text \<open>One improving update.\<close>

lemma improve_unchanged:
  assumes "d_times st (e_to e) = Some t" and "\<not> tn + e_time e < t"
  shows "improve n tn e st = st"
  using assms by (simp add: improve_def Let_def)

lemma improve_changed:
  assumes "d_times st (e_to e) = None \<or> (\<exists>t. d_times st (e_to e) = Some t \<and> tn + e_time e < t)"
  shows "improve n tn e st =
         st\<lparr>d_times := (d_times st)(e_to e \<mapsto> tn + e_time e),
            d_distances := (d_distances st)(e_to e \<mapsto>
               (case d_distances st n of None \<Rightarrow> 0 | Some d \<Rightarrow> d) + e_dist e),
            d_prev := (d_prev st)(e_to e \<mapsto> n),
            d_pq := d_pq st @ [(e_to e, tn + e_time e)]\<rparr>"
  using assms by (auto simp: improve_def Let_def)

lemma improve_relaxInv:
  assumes inv: "relaxInv E S N n tn st"
    and cl: "closedUnder E N"
    and e: "e \<in> set E" "e_from e = n" "0 < e_time e"
    and ok: "\<not> consecutiveTransfer E (d_prev st) n e"
  shows "relaxInv E S N n tn (improve n tn e st) \<and>
         (\<forall>x. settled st x \<longrightarrow> settled (improve n tn e st) x)"
proof (cases "d_times st (e_to e) = None \<or> (\<exists>t. d_times st (e_to e) = Some t \<and> tn + e_time e < t)")
  case False
  then have "improve n tn e st = st"
    by (cases "d_times st (e_to e)") (auto intro: improve_unchanged)
  with inv show ?thesis by simp
next
  case True
  let ?m = "e_to e" and ?nt = "tn + e_time e"
  let ?st' = "improve n tn e st"
  have st': "?st' = st\<lparr>d_times := (d_times st)(?m \<mapsto> ?nt),
            d_distances := (d_distances st)(?m \<mapsto>
               (case d_distances st n of None \<Rightarrow> 0 | Some d \<Rightarrow> d) + e_dist e),
            d_prev := (d_prev st)(?m \<mapsto> n),
            d_pq := d_pq st @ [(?m, ?nt)]\<rparr>"
    by (rule improve_changed[OF True])
  have tms: "d_times ?st' = (d_times st)(?m \<mapsto> ?nt)"
    and prv: "d_prev ?st' = (d_prev st)(?m \<mapsto> n)"
    and dst: "d_distances ?st' = (d_distances st)(?m \<mapsto>
               (case d_distances st n of None \<Rightarrow> 0 | Some d \<Rightarrow> d) + e_dist e)"
    and pq: "d_pq ?st' = d_pq st @ [(?m, ?nt)]"
    by (simp_all add: st')
  from inv have si: "searchInv E S N st" and tn: "d_times st n = Some tn"
    and nn: "(n, tn) \<notin> set (d_pq st)"
    and ge: "\<And>m t. (m, t) \<in> set (d_pq st) \<Longrightarrow> tn \<le> t"
    and le: "\<And>x tx. d_times st x = Some tx \<Longrightarrow> (x, tx) \<notin> set (d_pq st) \<Longrightarrow> tx \<le> tn"
    by (auto simp: relaxInv_def)
  from si have dom: "dom (d_times st) \<subseteq> N" and q: "queueInv st" and s: "startInv S st"
    and p: "prevInv E st"
    by (auto simp: searchInv_def)
  from q have dist: "distinct (d_pq st)"
    and qb: "\<And>x t. (x, t) \<in> set (d_pq st) \<Longrightarrow> \<exists>tx. d_times st x = Some tx \<and> tx \<le> t"
    by (auto simp: queueInv_def)
  from s have nonneg: "\<And>x t. d_times st x = Some t \<Longrightarrow> 0 \<le> t"
    and start: "\<And>x. x \<in> S \<Longrightarrow> d_times st x = Some 0 \<and> d_prev st x = None \<and> d_distances st x = Some 0"
    by (auto simp: startInv_def)
  have tn0: "0 \<le> tn" using nonneg[OF tn] .
  have mn: "?m \<noteq> n"
    using True tn e(3) by auto
  have unsettled: "\<not> settled st ?m"
  proof
    assume "settled st ?m"
    then obtain tm where tm: "d_times st ?m = Some tm" "(?m, tm) \<notin> set (d_pq st)"
      by (auto simp: settled_def)
    from le[OF this] have "tm \<le> tn" .
    moreover from True tm(1) have "?nt < tm" by auto
    ultimately show False using e(3) by simp
  qed
  have fresh: "(?m, ?nt) \<notin> set (d_pq st)"
  proof
    assume "(?m, ?nt) \<in> set (d_pq st)"
    from qb[OF this] obtain tm where "d_times st ?m = Some tm" "tm \<le> ?nt" by blast
    with True show False by auto
  qed
  have mS: "?m \<notin> S"
  proof
    assume "?m \<in> S"
    then have "d_times st ?m = Some 0" using start by blast
    with True have "?nt < 0" by auto
    with tn0 e(3) show False by simp
  qed
  have keep: "settled ?st' x" if "settled st x" for x
  proof -
    from that unsettled have "x \<noteq> ?m" by auto
    with that show ?thesis
      by (auto simp: settled_def tms pq)
  qed
  have "dom (d_times ?st') \<subseteq> N"
  proof -
    from tn dom have "n \<in> N" by auto
    with cl e(1,2) have "?m \<in> N" by (auto simp: closedUnder_def)
    with dom show ?thesis by (auto simp: tms)
  qed
  moreover have "queueInv ?st'"
    unfolding queueInv_def
  proof (intro conjI allI impI)
    show "distinct (d_pq ?st')"
      using dist fresh by (simp add: pq)
  next
    fix x t assume "(x, t) \<in> set (d_pq ?st')"
    then consider "(x, t) \<in> set (d_pq st)" | "x = ?m" "t = ?nt"
      by (auto simp: pq)
    then show "\<exists>tx. d_times ?st' x = Some tx \<and> tx \<le> t"
    proof cases
      case 1
      from qb[OF 1] obtain tx where tx: "d_times st x = Some tx" "tx \<le> t" by blast
      show ?thesis
      proof (cases "x = ?m")
        case True
        with \<open>d_times st (e_to e) = None \<or> _\<close> tx have "?nt < tx" by auto
        with tx(2) True show ?thesis by (simp add: tms)
      next
        case False
        with tx show ?thesis by (simp add: tms)
      qed
    next
      case 2
      then show ?thesis by (simp add: tms)
    qed
  next
    fix x tx y t
    assume a: "d_times ?st' x = Some tx \<and> (x, tx) \<notin> set (d_pq ?st') \<and> (y, t) \<in> set (d_pq ?st')"
    then have xm: "x \<noteq> ?m" by (auto simp: tms pq)
    with a have sx: "d_times st x = Some tx" "(x, tx) \<notin> set (d_pq st)"
      by (auto simp: tms pq)
    from a consider "(y, t) \<in> set (d_pq st)" | "t = ?nt" by (auto simp: pq)
    then show "tx \<le> t"
    proof cases
      case 1
      from le[OF sx] ge[OF 1] show ?thesis by simp
    next
      case 2
      from le[OF sx] e(3) 2 show ?thesis by simp
    qed
  qed
  moreover have "startInv S ?st'"
    unfolding startInv_def
  proof (intro conjI ballI allI impI)
    fix x assume "x \<in> S"
    with mS have "x \<noteq> ?m" by auto
    with start[OF \<open>x \<in> S\<close>]
    show "d_times ?st' x = Some 0" "d_prev ?st' x = None" "d_distances ?st' x = Some 0"
      by (simp_all add: tms prv dst)
  next
    fix x t assume "d_times ?st' x = Some t"
    then show "0 \<le> t"
      using nonneg[of x t] tn0 e(3) by (auto simp: tms split: if_splits)
  qed
  moreover have "prevInv E ?st'"
    unfolding prevInv_def
  proof (intro allI impI)
    fix x y assume xy: "d_prev ?st' x = Some y"
    show "settled ?st' y \<and>
          (\<exists>e'\<in>set E. e_from e' = y \<and> e_to e' = x \<and> \<not> consecutiveTransfer E (d_prev ?st') y e')"
    proof (cases "x = ?m")
      case True
      with xy have y: "y = n" by (simp add: prv)
      have "settled ?st' n"
        using tn nn mn by (auto simp: settled_def tms pq)
      moreover have "\<not> consecutiveTransfer E (d_prev ?st') n e"
        using ok mn consecutiveTransfer_cong[of "d_prev ?st'" n "d_prev st" E e]
        by (simp add: prv)
      ultimately show ?thesis
        using e(1,2) True y by blast
    next
      case False
      with xy have old: "d_prev st x = Some y" by (simp add: prv)
      with p obtain e' where sy: "settled st y" and e': "e' \<in> set E" "e_from e' = y" "e_to e' = x"
        "\<not> consecutiveTransfer E (d_prev st) y e'"
        unfolding prevInv_def by blast
      from sy unsettled have ym: "y \<noteq> ?m" by auto
      then have "\<not> consecutiveTransfer E (d_prev ?st') y e'"
        using e'(4) consecutiveTransfer_cong[of "d_prev ?st'" y "d_prev st" E e']
        by (simp add: prv)
      with keep[OF sy] e' show ?thesis by blast
    qed
  qed
  ultimately have "searchInv E S N ?st'"
    by (simp add: searchInv_def)
  moreover have "d_times ?st' n = Some tn" "(n, tn) \<notin> set (d_pq ?st')"
    using tn nn mn by (auto simp: tms pq)
  moreover have "\<forall>m t. (m, t) \<in> set (d_pq ?st') \<longrightarrow> tn \<le> t"
    using ge e(3) by (auto simp: pq)
  moreover have "\<forall>x tx. d_times ?st' x = Some tx \<and> (x, tx) \<notin> set (d_pq ?st') \<longrightarrow> tx \<le> tn"
  proof (intro allI impI)
    fix x tx assume a: "d_times ?st' x = Some tx \<and> (x, tx) \<notin> set (d_pq ?st')"
    then have "x \<noteq> ?m" by (auto simp: tms pq)
    with a have "d_times st x = Some tx" "(x, tx) \<notin> set (d_pq st)"
      by (auto simp: tms pq)
    then show "tx \<le> tn" by (rule le)
  qed
  ultimately have "relaxInv E S N n tn ?st'"
    by (simp add: relaxInv_def)
  with keep show ?thesis by blast
qed

text \<open>No check raises on a node that holds the separator.\<close>

lemma typeOfNode_Some: "CHR ''_'' \<in> set node \<Longrightarrow> \<exists>t. typeOfNode node = Some t"
proof (induction node)
  case Nil
  then show ?case by simp
next
  case (Cons c cs)
  show ?case
  proof (cases "c = CHR ''_''")
    case True
    then show ?thesis
      by (cases cs) (auto simp: typeOfNode_def split: list.splits)
  next
    case False
    with Cons.prems have "CHR ''_'' \<in> set cs" by simp
    from Cons.IH[OF this] False show ?thesis
      by (auto simp: typeOfNode_def split: list.splits)
  qed
qed

lemma throughBlocked_no_error:
  "CHR ''_'' \<in> set node \<Longrightarrow> \<exists>b. throughBlocked stations som tss prv node edge = Inr b"
  using typeOfNode_Some[of node]
  by (auto simp: throughBlocked_def Let_def split: option.splits)

lemma blocked_no_error:
  "CHR ''_'' \<in> set node \<Longrightarrow> \<exists>b. blocked stations E som tss prv node edge = Inr b"
  using throughBlocked_no_error[of node stations som tss prv edge]
  by (auto simp: blocked_def)

lemma blocked_False_not_consecutive:
  "blocked stations E som tss prv node edge = Inr False \<Longrightarrow> \<not> consecutiveTransfer E prv node edge"
  by (auto simp: blocked_def split: if_splits)

lemma relaxEdge_relaxInv:
  assumes inv: "relaxInv E S N n tn st"
    and cl: "closedUnder E N"
    and e: "e \<in> set E" "0 < e_time e"
    and us: "CHR ''_'' \<in> set n"
  shows "\<exists>st'. relaxEdge stations E som tss n tn e st = Inr st' \<and> relaxInv E S N n tn st' \<and>
               (\<forall>x. settled st x \<longrightarrow> settled st' x)"
proof (cases "e_from e = n")
  case False
  with inv show ?thesis by (simp add: relaxEdge_def)
next
  case True
  from blocked_no_error[OF us] obtain b where
    b: "blocked stations E som tss (d_prev st) n e = Inr b" by blast
  show ?thesis
  proof (cases b)
    case True
    with b \<open>e_from e = n\<close> inv show ?thesis by (simp add: relaxEdge_def)
  next
    case False
    with b have "\<not> consecutiveTransfer E (d_prev st) n e"
      by (intro blocked_False_not_consecutive[of stations E som tss]) simp
    from improve_relaxInv[OF inv cl e(1) \<open>e_from e = n\<close> e(2) this] b False \<open>e_from e = n\<close>
    show ?thesis by (simp add: relaxEdge_def)
  qed
qed

lemma relaxEdges_relaxInv:
  assumes cl: "closedUnder E N"
    and ok: "edgesOK E"
    and us: "CHR ''_'' \<in> set n"
  shows "set es \<subseteq> set E \<Longrightarrow> relaxInv E S N n tn st \<Longrightarrow>
         \<exists>st'. relaxEdges stations E som tss n tn es st = Inr st' \<and> relaxInv E S N n tn st' \<and>
               (\<forall>x. settled st x \<longrightarrow> settled st' x)"
proof (induction es arbitrary: st)
  case Nil
  then show ?case by simp
next
  case (Cons e es)
  from Cons.prems(1) ok have e: "e \<in> set E" "0 < e_time e"
    by (auto simp: edgesOK_def list_all_iff)
  from relaxEdge_relaxInv[OF Cons.prems(2) cl e us] obtain st1 where
    st1: "relaxEdge stations E som tss n tn e st = Inr st1" "relaxInv E S N n tn st1"
      "\<forall>x. settled st x \<longrightarrow> settled st1 x"
    by blast
  from Cons.prems(1) have "set es \<subseteq> set E" by simp
  from Cons.IH[OF this st1(2)] obtain st' where
    "relaxEdges stations E som tss n tn es st1 = Inr st'" "relaxInv E S N n tn st'"
    "\<forall>x. settled st1 x \<longrightarrow> settled st' x"
    by blast
  with st1 show ?case by auto
qed

lemma popped_facts:
  assumes "sort_key snd q = (n, t) # rest"
  shows "set q = insert (n, t) (set rest)"
    and "length q = Suc (length rest)"
    and "\<And>m t'. (m, t') \<in> set rest \<Longrightarrow> t \<le> t'"
    and "distinct q \<Longrightarrow> distinct rest \<and> (n, t) \<notin> set rest"
proof -
  have "set q = set (sort_key snd q)" by simp
  then show "set q = insert (n, t) (set rest)" by (simp add: assms)
  have "length q = length (sort_key snd q)" by simp
  then show "length q = Suc (length rest)" by (simp add: assms)
  have "sorted (map snd (sort_key snd q))" by simp
  then have s: "sorted (map snd ((n, t) # rest))" by (simp add: assms)
  show "t \<le> t'" if "(m, t') \<in> set rest" for m t'
    using s that by force
  assume "distinct q"
  then have "distinct (sort_key snd q)" by simp
  then show "distinct rest \<and> (n, t) \<notin> set rest" by (simp add: assms)
qed

lemma stale_step:
  assumes inv: "searchInv E S N st"
    and pop: "sort_key snd (d_pq st) = (n, t) # rest"
    and stale: "d_times st n = Some tn" "tn < t"
  shows "searchInv E S N (st\<lparr>d_pq := rest\<rparr>) \<and>
         (\<forall>x. settled st x \<longrightarrow> settled (st\<lparr>d_pq := rest\<rparr>) x)"
proof -
  let ?st' = "st\<lparr>d_pq := rest\<rparr>"
  note pf = popped_facts[OF pop]
  from inv have dom: "dom (d_times st) \<subseteq> N" and q: "queueInv st" and s: "startInv S st"
    and p: "prevInv E st"
    by (auto simp: searchInv_def)
  have keep: "settled ?st' x" if "settled st x" for x
    using that pf(1) by (auto simp: settled_def)
  have same: "(x, tx) \<in> set (d_pq st) \<longleftrightarrow> (x, tx) \<in> set rest" if "d_times st x = Some tx" for x tx
    using that stale pf(1) by auto
  have "queueInv ?st'"
    unfolding queueInv_def
  proof (intro conjI allI impI)
    show "distinct (d_pq ?st')"
      using q pf(4) by (simp add: queueInv_def)
  next
    fix x t' assume "(x, t') \<in> set (d_pq ?st')"
    then have "(x, t') \<in> set (d_pq st)" using pf(1) by simp
    with q show "\<exists>tx. d_times ?st' x = Some tx \<and> tx \<le> t'"
      by (auto simp: queueInv_def)
  next
    fix x tx y t'
    assume a: "d_times ?st' x = Some tx \<and> (x, tx) \<notin> set (d_pq ?st') \<and> (y, t') \<in> set (d_pq ?st')"
    then have "d_times st x = Some tx" "(x, tx) \<notin> set (d_pq st)" "(y, t') \<in> set (d_pq st)"
      using same[of x tx] pf(1) by auto
    with q show "tx \<le> t'"
      unfolding queueInv_def by blast
  qed
  moreover have "startInv S ?st'"
    using s by (simp add: startInv_def)
  moreover have "prevInv E ?st'"
    using p keep by (simp add: prevInv_def)
  ultimately show ?thesis
    using dom keep by (simp add: searchInv_def)
qed

lemma live_step:
  assumes inv: "searchInv E S N st"
    and pop: "sort_key snd (d_pq st) = (n, t) # rest"
    and live: "\<not> (case d_times st n of None \<Rightarrow> False | Some tn \<Rightarrow> t > tn)"
  shows "relaxInv E S N n t (st\<lparr>d_pq := rest\<rparr>) \<and>
         (\<forall>x. settled st x \<longrightarrow> settled (st\<lparr>d_pq := rest\<rparr>) x) \<and>
         \<not> settled st n \<and> settled (st\<lparr>d_pq := rest\<rparr>) n \<and> n \<in> N"
proof -
  let ?st' = "st\<lparr>d_pq := rest\<rparr>"
  note pf = popped_facts[OF pop]
  from inv have dom: "dom (d_times st) \<subseteq> N" and q: "queueInv st" and s: "startInv S st"
    and p: "prevInv E st"
    by (auto simp: searchInv_def)
  from q have dist: "distinct (d_pq st)"
    and qb: "\<And>x t. (x, t) \<in> set (d_pq st) \<Longrightarrow> \<exists>tx. d_times st x = Some tx \<and> tx \<le> t"
    and qd: "\<And>x tx m t. d_times st x = Some tx \<Longrightarrow> (x, tx) \<notin> set (d_pq st)
               \<Longrightarrow> (m, t) \<in> set (d_pq st) \<Longrightarrow> tx \<le> t"
    by (auto simp: queueInv_def)
  have "(n, t) \<in> set (d_pq st)" using pf(1) by simp
  from qb[OF this] live have tn: "d_times st n = Some t"
    by auto
  from pf(4)[OF dist] have drest: "distinct rest" and nrest: "(n, t) \<notin> set rest" by auto
  have keep: "settled ?st' x" if "settled st x" for x
    using that pf(1) by (auto simp: settled_def)
  have le: "tx \<le> t" if "d_times st x = Some tx" "(x, tx) \<notin> set rest" for x tx
  proof (cases "(x, tx) = (n, t)")
    case True
    then show ?thesis by simp
  next
    case False
    with that pf(1) have "(x, tx) \<notin> set (d_pq st)" by auto
    from qd[OF that(1) this \<open>(n, t) \<in> set (d_pq st)\<close>] show ?thesis .
  qed
  have "queueInv ?st'"
    unfolding queueInv_def
  proof (intro conjI allI impI)
    show "distinct (d_pq ?st')" using drest by simp
  next
    fix x t' assume "(x, t') \<in> set (d_pq ?st')"
    then have "(x, t') \<in> set (d_pq st)" using pf(1) by simp
    from qb[OF this] show "\<exists>tx. d_times ?st' x = Some tx \<and> tx \<le> t'" by simp
  next
    fix x tx y t'
    assume a: "d_times ?st' x = Some tx \<and> (x, tx) \<notin> set (d_pq ?st') \<and> (y, t') \<in> set (d_pq ?st')"
    then have "tx \<le> t" using le[of x tx] by simp
    moreover from a have "t \<le> t'" using pf(3)[of y t'] by simp
    ultimately show "tx \<le> t'" by simp
  qed
  moreover have "startInv S ?st'"
    using s by (simp add: startInv_def)
  moreover have "prevInv E ?st'"
    using p keep by (simp add: prevInv_def)
  ultimately have "searchInv E S N ?st'"
    using dom by (simp add: searchInv_def)
  then have "relaxInv E S N n t ?st'"
    using tn nrest pf(3) le by (auto simp: relaxInv_def)
  moreover have "\<not> settled st n"
    using tn \<open>(n, t) \<in> set (d_pq st)\<close> by (auto simp: settled_def)
  moreover have "settled ?st' n"
    using tn nrest by (auto simp: settled_def)
  moreover have "n \<in> N"
    using tn dom by auto
  ultimately show ?thesis
    using keep by blast
qed

lemma relaxInv_searchInv: "relaxInv E S N n tn st \<Longrightarrow> searchInv E S N st"
  by (simp add: relaxInv_def)

lemma unsettled_card_less:
  assumes "finite N" and "\<And>x. settled st x \<Longrightarrow> settled st' x"
    and "n \<in> N" "\<not> settled st n" "settled st' n"
  shows "card (unsettledIn N st') < card (unsettledIn N st)"
proof (rule psubset_card_mono)
  show "finite (unsettledIn N st)"
    using assms(1) by (simp add: unsettledIn_def)
  show "unsettledIn N st' \<subset> unsettledIn N st"
    using assms(2-5) by (auto simp: unsettledIn_def)
qed

lemma unsettled_card_le:
  assumes "finite N" and "\<And>x. settled st x \<Longrightarrow> settled st' x"
  shows "card (unsettledIn N st') \<le> card (unsettledIn N st)"
proof (rule card_mono)
  show "finite (unsettledIn N st)"
    using assms(1) by (simp add: unsettledIn_def)
  show "unsettledIn N st' \<subseteq> unsettledIn N st"
    using assms(2) by (auto simp: unsettledIn_def)
qed

text \<open>The loop returns, without an error, in a state that satisfies the invariant.\<close>

lemma dijkstraLoop_returns:
  assumes fin: "finite N" and cl: "closedUnder E N" and ok: "edgesOK E"
    and us: "\<And>x. x \<in> N \<Longrightarrow> CHR ''_'' \<in> set x"
  shows "searchInv E S N st \<Longrightarrow>
         \<exists>st'. dijkstraLoop stations E som tss st = Some (Inr st') \<and> searchInv E S N st' \<and>
               d_pq st' = []"
proof (induction st rule: wf_induct_rule[OF wf_measures[of "[\<lambda>st. card (unsettledIn N st), \<lambda>st. length (d_pq st)]"]])
  case (1 st)
  show ?case
  proof (cases "sort_key snd (d_pq st)")
    case Nil
    then have "d_pq st = []"
      by (metis length_0_conv length_sort)
    with Nil "1.prems" show ?thesis
      by (subst dijkstraLoop.simps) simp
  next
    case (Cons entry rest)
    obtain n t where entry: "entry = (n, t)" by (cases entry)
    with Cons have pop: "sort_key snd (d_pq st) = (n, t) # rest" by simp
    note pf = popped_facts[OF pop]
    let ?st1 = "st\<lparr>d_pq := rest\<rparr>"
    show ?thesis
    proof (cases "case d_times st n of None \<Rightarrow> False | Some tn \<Rightarrow> t > tn")
      case True
      then obtain tn where tn: "d_times st n = Some tn" "tn < t"
        by (auto split: option.splits)
      from stale_step[OF "1.prems" pop tn] have inv1: "searchInv E S N ?st1"
        and keep: "\<And>x. settled st x \<Longrightarrow> settled ?st1 x" by auto
      have "card (unsettledIn N ?st1) \<le> card (unsettledIn N st)"
        by (rule unsettled_card_le[OF fin]) (rule keep)
      then have "(?st1, st) \<in> measures [\<lambda>st. card (unsettledIn N st), \<lambda>st. length (d_pq st)]"
        using pf(2) by auto
      from "1.IH"[OF this inv1] True pop show ?thesis
        by (subst dijkstraLoop.simps) simp
    next
      case False
      from live_step[OF "1.prems" pop False] have rinv: "relaxInv E S N n t ?st1"
        and keep: "\<And>x. settled st x \<Longrightarrow> settled ?st1 x"
        and n: "\<not> settled st n" "settled ?st1 n" "n \<in> N" by auto
      from relaxEdges_relaxInv[OF cl ok us[OF n(3)] subset_refl rinv, of stations som tss]
      obtain st2 where st2: "relaxEdges stations E som tss n t E ?st1 = Inr st2"
        "relaxInv E S N n t st2" "\<And>x. settled ?st1 x \<Longrightarrow> settled st2 x"
        by blast
      have "card (unsettledIn N st2) < card (unsettledIn N st)"
      proof (rule unsettled_card_less[OF fin _ n(3) n(1)])
        show "settled st2 x" if "settled st x" for x
          using that keep st2(3) by blast
        show "settled st2 n"
          using n(2) st2(3) by blast
      qed
      then have "(st2, st) \<in> measures [\<lambda>st. card (unsettledIn N st), \<lambda>st. length (d_pq st)]"
        by simp
      from "1.IH"[OF this relaxInv_searchInv[OF st2(2)]] False pop st2(1) show ?thesis
        by (subst dijkstraLoop.simps) simp
    qed
  qed
qed


section \<open>The search from a station of a built graph\<close>

lemma reachable_closed: "closedUnder E (reachableFrom E S)"
  unfolding closedUnder_def reachableFrom_def edgeRel_def
  by (auto intro: rtrancl_into_rtrancl)

lemma reachable_start: "S \<subseteq> reachableFrom E S"
  by (auto simp: reachableFrom_def)

lemma reachable_subset: "reachableFrom E S \<subseteq> S \<union> e_to ` set E"
proof
  fix v assume "v \<in> reachableFrom E S"
  then obtain s where s: "s \<in> S" "(s, v) \<in> (edgeRel E)\<^sup>*"
    by (auto simp: reachableFrom_def)
  from s(2) show "v \<in> S \<union> e_to ` set E"
    by (cases rule: rtranclE) (use s(1) in \<open>auto simp: edgeRel_def\<close>)
qed

lemma reachable_finite: "finite S \<Longrightarrow> finite (reachableFrom E S)"
  by (rule finite_subset[OF reachable_subset]) simp

lemma nodeOf_separator: "CHR ''_'' \<in> set (nodeOf a ty)"
  by (simp add: nodeOf_def)

text \<open>The seeded state.\<close>

lemma seed_fold:
  "d_pq (fold (seedStart s) types st) = d_pq st @ map (\<lambda>ty. (nodeOf s ty, 0)) types \<and>
   d_prev (fold (seedStart s) types st) = d_prev st \<and>
   (\<forall>x. d_times (fold (seedStart s) types st) x
         = (if x \<in> nodeOf s ` set types then Some 0 else d_times st x)) \<and>
   (\<forall>x. d_distances (fold (seedStart s) types st) x
         = (if x \<in> nodeOf s ` set types then Some 0 else d_distances st x))"
proof (induction types arbitrary: st)
  case Nil
  then show ?case by simp
next
  case (Cons ty types)
  show ?case
    using Cons.IH[of "seedStart s ty st"]
    by (auto simp: seedStart_def Let_def)
qed

lemma initialState_facts:
  "d_pq (initialState ss s) = map (\<lambda>n. (n, 0)) (presenceNodes ss s)"
  "d_prev (initialState ss s) = Map.empty"
  "d_times (initialState ss s) x = (if x \<in> set (presenceNodes ss s) then Some 0 else None)"
  "d_distances (initialState ss s) x = (if x \<in> set (presenceNodes ss s) then Some 0 else None)"
  using seed_fold[of s "stopTypes ss s"
      "\<lparr>d_times = Map.empty, d_prev = Map.empty, d_pq = [], d_distances = Map.empty\<rparr>"]
  by (simp_all add: initialState_def presenceNodes_def stopTypes_def comp_def)

lemma initialState_inv:
  assumes "distinct (stopTypes ss s)" and "set (presenceNodes ss s) \<subseteq> N"
  shows "searchInv E (set (presenceNodes ss s)) N (initialState ss s)"
proof -
  have inj: "inj_on (nodeOf s) A" for A
    by (rule inj_onI) (simp add: nodeOf_def)
  have "distinct (presenceNodes ss s)"
    using assms(1) inj by (simp add: presenceNodes_def distinct_map)
  then have "distinct (map (\<lambda>n. (n, 0::real)) (presenceNodes ss s))"
    by (simp add: distinct_map inj_on_def)
  then have "queueInv (initialState ss s)"
    by (auto simp: queueInv_def initialState_facts split: if_splits)
  moreover have "startInv (set (presenceNodes ss s)) (initialState ss s)"
    by (auto simp: startInv_def initialState_facts split: if_splits)
  moreover have "prevInv E (initialState ss s)"
    by (simp add: prevInv_def initialState_facts)
  moreover have "dom (d_times (initialState ss s)) \<subseteq> N"
    using assms(2) by (auto simp: initialState_facts split: if_splits)
  ultimately show ?thesis
    by (simp add: searchInv_def)
qed

text \<open>The search from the seeded state.\<close>

lemma dijkstraLoop_from_start:
  assumes ok: "edgesOK E" and d: "distinct (stopTypes ss s)"
  shows "\<exists>st. dijkstraLoop stations E som tss (initialState ss s) = Some (Inr st) \<and>
              searchInv E (set (presenceNodes ss s)) (reachableFrom E (set (presenceNodes ss s))) st \<and>
              d_pq st = []"
proof (rule dijkstraLoop_returns[OF _ reachable_closed ok])
  let ?S = "set (presenceNodes ss s)"
  show "finite (reachableFrom E ?S)"
    by (rule reachable_finite) simp
  show "CHR ''_'' \<in> set x" if "x \<in> reachableFrom E ?S" for x
  proof -
    from that reachable_subset have "x \<in> ?S \<or> x \<in> e_to ` set E" by blast
    then show ?thesis
      using ok by (auto simp: presenceNodes_def nodeOf_separator edgesOK_def list_all_iff)
  qed
  show "searchInv E ?S (reachableFrom E ?S) (initialState ss s)"
    by (rule initialState_inv[OF d reachable_start])
qed

text \<open>Goal selection.\<close>

lemma pickGoal_none:
  "(\<And>ty. ty \<in> set types \<Longrightarrow> tms (nodeOf g ty) = None)
   \<Longrightarrow> fold (pickGoal tms g) types best = best"
  by (induction types arbitrary: best) (simp_all add: pickGoal_def Let_def)

lemma pickGoal_zero_kept:
  "(\<And>ty. ty \<in> set types \<Longrightarrow> tms (nodeOf g ty) = Some 0)
   \<Longrightarrow> fold (pickGoal tms g) types (Some 0, Some x) = (Some 0, Some x)"
  by (induction types) (simp_all add: pickGoal_def Let_def)

lemma pickGoal_zero_first:
  assumes "\<And>ty. ty \<in> set (t0 # types) \<Longrightarrow> tms (nodeOf g ty) = Some 0"
  shows "fold (pickGoal tms g) (t0 # types) (None, None) = (Some 0, Some (nodeOf g t0))"
proof -
  have "pickGoal tms g t0 (None, None) = (Some 0, Some (nodeOf g t0))"
    using assms[of t0] by (simp add: pickGoal_def Let_def)
  then show ?thesis
    using pickGoal_zero_kept[of types tms g "nodeOf g t0"] assms by simp
qed

lemma dijkstra_unreachable:
  assumes ok: "edgesOK E" and d: "distinct (stopTypes ss s)"
    and un: "\<And>a b. a \<in> set (presenceNodes ss s) \<Longrightarrow> b \<in> set (presenceNodes ss t)
                 \<Longrightarrow> (a, b) \<notin> (edgeRel E)\<^sup>*"
  shows "dijkstra stations E s t ss som tss = Some (Inr None)"
proof -
  let ?S = "set (presenceNodes ss s)"
  from dijkstraLoop_from_start[OF ok d] obtain st where
    st: "dijkstraLoop stations E som tss (initialState ss s) = Some (Inr st)"
      "searchInv E ?S (reachableFrom E ?S) st"
    by blast
  have "d_times st (nodeOf t ty) = None" if "ty \<in> set (stopTypes ss t)" for ty
  proof -
    from that have "nodeOf t ty \<in> set (presenceNodes ss t)"
      by (simp add: presenceNodes_def)
    with un have "nodeOf t ty \<notin> reachableFrom E ?S"
      by (auto simp: reachableFrom_def)
    with st(2) show ?thesis
      by (auto simp: searchInv_def)
  qed
  then have "fold (pickGoal (d_times st) t) (stopTypes ss t) (None, None) = (None, None)"
    by (rule pickGoal_none)
  with st(1) show ?thesis
    by (simp add: dijkstra_def stopTypes_def)
qed

lemma dijkstra_same_station:
  assumes ok: "edgesOK E" and d: "distinct (stopTypes ss s)"
    and ne: "stopTypes ss s = t0 # types"
  shows "dijkstra stations E s s ss som tss
         = Some (Inr (Some \<lparr>r_path = [nodeOf s t0], r_time = 0, r_distance = Some 0\<rparr>))"
proof -
  let ?S = "set (presenceNodes ss s)"
  from dijkstraLoop_from_start[OF ok d] obtain st where
    st: "dijkstraLoop stations E som tss (initialState ss s) = Some (Inr st)"
      "searchInv E ?S (reachableFrom E ?S) st"
    by blast
  from st(2) have start: "\<And>x. x \<in> ?S \<Longrightarrow>
      d_times st x = Some 0 \<and> d_prev st x = None \<and> d_distances st x = Some 0"
    by (auto simp: searchInv_def startInv_def)
  have "d_times st (nodeOf s ty) = Some 0" if "ty \<in> set (t0 # types)" for ty
    using that start[of "nodeOf s ty"] ne by (auto simp: presenceNodes_def)
  then have "fold (pickGoal (d_times st) s) (t0 # types) (None, None)
             = (Some 0, Some (nodeOf s t0))"
    by (rule pickGoal_zero_first)
  moreover have "nodeOf s t0 \<in> ?S"
    using ne by (simp add: presenceNodes_def)
  then have "d_prev st (nodeOf s t0) = None" "d_distances st (nodeOf s t0) = Some 0"
    using start by blast+
  moreover from this(1) have "walkBack (d_prev st) (nodeOf s t0) [] = Some [nodeOf s t0]"
    by (subst walkBack.simps) simp
  ultimately show ?thesis
    using st(1) ne by (simp add: dijkstra_def stopTypes_def[symmetric])
qed

lemma valuesAll_Nil: "valuesAll P []"
  by (simp add: valuesAll_def)

lemma valuesAll_objSet: "valuesAll P ob \<Longrightarrow> P v \<Longrightarrow> valuesAll P (objSet k v ob)"
  by (induction ob) (auto simp: valuesAll_def)

lemma valuesAll_objGet: "valuesAll P ob \<Longrightarrow> objGet ob k = Some v \<Longrightarrow> P v"
  by (force simp: valuesAll_def objGet_def list_all_iff dest!: map_of_SomeD)

lemma valuesAll_default:
  "valuesAll (valuesAll P) ob \<Longrightarrow> valuesAll P (case objGet ob k of None \<Rightarrow> [] | Some c \<Rightarrow> c)"
  by (auto simp: valuesAll_Nil split: option.splits dest: valuesAll_objGet)

subsection \<open>Pass 1 caches distances that are not negative\<close>

lemma euclid_nonneg: "0 \<le> euclid sA sB"
  by (simp add: euclid_def)

lemma learnStop_cache:
  "valuesAll segNonneg (snd st) \<Longrightarrow> valuesAll segNonneg (snd (learnStop stations i stopId rest st))"
  by (auto simp: learnStop_def Let_def segNonneg_def euclid_nonneg
           split: list.splits option.splits intro!: valuesAll_objSet)

lemma learnStops_cache:
  "valuesAll segNonneg (snd st) \<Longrightarrow> valuesAll segNonneg (snd (learnStops stations i stops st))"
  by (induction stops arbitrary: i st) (simp_all add: learnStop_cache)

lemma learnRoute_cache:
  "valuesAll (valuesAll segNonneg) (snd st)
   \<Longrightarrow> valuesAll (valuesAll segNonneg) (snd (learnRoute stations r st))"
  by (auto simp: learnRoute_def Let_def intro!: valuesAll_objSet learnStops_cache valuesAll_default)

lemma learnTopology_cache: "valuesAll (valuesAll segNonneg) (snd (learnTopology stations services))"
  unfolding learnTopology_def
  by (rule fold_invariant)
     (auto simp: valuesAll_Nil learnService_def intro!: fold_invariant learnRoute_cache)

subsection \<open>Pass 2\<close>

lemma hopDist_nonneg: "valuesAll segNonneg sc \<Longrightarrow> 0 \<le> hopDist sc k"
  by (auto simp: hopDist_def segNonneg_def split: option.splits dest: valuesAll_objGet)

lemma accumulateDist_nonneg: "valuesAll segNonneg sc \<Longrightarrow> 0 \<le> accumulateDist sc full i j"
  by (auto simp: accumulateDist_def fold_addSegment intro!: sum_list_nonneg hopDist_nonneg)

lemma rideEdge_good: "0 \<le> d \<Longrightarrow> goodEdge (rideEdge ty r (nodeOf a ty) (nodeOf b ty) d)"
  by (simp add: goodEdge_def rideEdge_def nodeOf_separator constant_defs add_nonneg_pos)

lemma setAdd_distinct: "distinct xs \<Longrightarrow> distinct (setAdd x xs)"
  by (simp add: setAdd_def)

lemma ensure_distinct:
  "valuesAll distinct ss \<Longrightarrow> valuesAll distinct (if objGet ss k = None then objSet k [] ss else ss)"
  by (simp add: valuesAll_objSet)

lemma addType_distinct:
  assumes "valuesAll distinct ss"
  shows "valuesAll distinct (case objGet ss k of None \<Rightarrow> ss | Some ts \<Rightarrow> objSet k (setAdd ty ts) ss)"
proof (cases "objGet ss k")
  case None
  with assms show ?thesis by simp
next
  case (Some ts)
  with assms have "distinct ts" by (rule valuesAll_objGet)
  with assms Some show ?thesis
    by (simp add: valuesAll_objSet setAdd_distinct)
qed

lemma recordStop_distinct:
  "valuesAll distinct ss \<Longrightarrow> valuesAll distinct (recordStop fromId toId ty ss)"
  unfolding recordStop_def Let_def
  by (intro addType_distinct ensure_distinct)

lemma rideStep_state:
  "valuesAll segNonneg sc \<Longrightarrow> rideState st \<Longrightarrow> rideState (rideStep ty r sc full fromId toId st)"
  by (auto simp: rideStep_def rideState_def Let_def split: option.splits
           intro!: rideEdge_good accumulateDist_nonneg recordStop_distinct)

lemma rideStops_state:
  "valuesAll segNonneg sc \<Longrightarrow> rideState st \<Longrightarrow> rideState (rideStops ty r sc full stops st)"
  by (induction ty r sc full stops st rule: rideStops.induct) (simp_all add: rideStep_state)

lemma rideRoute_state:
  assumes "valuesAll (valuesAll segNonneg) segc" and "rideState st"
  shows "rideState (rideRoute om segc ty r st)"
proof (cases "objGet om (lineKeyOf (rt_company r) (rt_line r))")
  case None
  with assms(2) show ?thesis by (simp add: rideRoute_def)
next
  case (Some lom)
  then show ?thesis
    using rideStops_state[OF valuesAll_default[OF assms(1)] assms(2)]
    by (simp add: rideRoute_def)
qed

lemma rideService_state:
  assumes "valuesAll (valuesAll segNonneg) segc" and "rideState st"
  shows "rideState (rideService om segc sv st)"
  unfolding rideService_def
  using assms by (auto intro!: fold_invariant rideRoute_state)

lemma serviceEdges_state:
  "valuesAll (valuesAll segNonneg) segc \<Longrightarrow> rideState (serviceEdges om segc services)"
  unfolding serviceEdges_def
  by (rule fold_invariant) (simp_all add: rideState_def[of "([], [])"] valuesAll_Nil rideService_state)

subsection \<open>Passes 3 and 4\<close>

lemma transferEdge_good: "goodEdge (transferEdge st (nodeOf a t1) (nodeOf b t2))"
  by (simp add: goodEdge_def transferEdge_def nodeOf_separator constant_defs)

lemma transferInner_good:
  "list_all goodEdge edges \<Longrightarrow> transferInner sid station t1 ts edges = Inr edges'
   \<Longrightarrow> list_all goodEdge edges'"
proof (induction ts arbitrary: edges)
  case Nil
  then show ?case by simp
next
  case (Cons t2 ts)
  show ?case
  proof (cases "sid = ''NY10'' \<and> separatedAtNY10 t1 t2")
    case True
    with Cons.prems(2) have "transferInner sid station t1 ts edges = Inr edges'"
      by simp
    from Cons.IH[OF Cons.prems(1) this] show ?thesis .
  next
    case False
    with Cons.prems(2) obtain st where st: "station = Some st"
      by (cases station) auto
    let ?edges = "edges @ [transferEdge st (nodeOf sid t1) (nodeOf sid t2),
                           transferEdge st (nodeOf sid t2) (nodeOf sid t1)]"
    have "list_all goodEdge ?edges"
      using Cons.prems(1) by (simp add: transferEdge_good)
    moreover from False st Cons.prems(2) have "transferInner sid station t1 ts ?edges = Inr edges'"
      by auto
    ultimately show ?thesis
      by (rule Cons.IH)
  qed
qed

lemma transferOuter_good:
  "list_all goodEdge edges \<Longrightarrow> transferOuter sid station ts edges = Inr edges'
   \<Longrightarrow> list_all goodEdge edges'"
proof (induction ts arbitrary: edges)
  case Nil
  then show ?case by simp
next
  case (Cons t ts)
  then show ?case
    by (auto split: sum.splits dest: transferInner_good)
qed

lemma transferStations_good:
  "list_all goodEdge edges \<Longrightarrow> transferStations stations ss ks edges = Inr edges'
   \<Longrightarrow> list_all goodEdge edges'"
proof (induction ks arbitrary: edges)
  case Nil
  then show ?case by simp
next
  case (Cons k ks)
  then show ?case
    by (auto simp: Let_def split: sum.splits if_splits dest: transferOuter_good)
qed

lemma samePointEdges_good: "list_all goodEdge (samePointEdges tss sA sB typeA typeB)"
  by (simp add: samePointEdges_def Let_def goodEdge_def nodeOf_separator constant_defs)

lemma walkEdges_good: "0 < d \<Longrightarrow> list_all goodEdge (walkEdges sA sB d typeA typeB)"
  by (simp add: walkEdges_def Let_def goodEdge_def nodeOf_separator constant_defs)

lemma list_all_concat_map: "(\<And>x. x \<in> set xs \<Longrightarrow> list_all P (f x)) \<Longrightarrow> list_all P (concat (map f xs))"
  by (induction xs) auto

lemma pairEdges_good: "list_all goodEdge (pairEdges tss ss sA typesA sB)"
  by (auto simp: pairEdges_def samePointAll_def walkAll_def Let_def split: option.splits
           intro!: list_all_concat_map samePointEdges_good walkEdges_good)

lemma proximityEdges_good: "list_all goodEdge (proximityEdges tss ss stations)"
  by (induction stations)
     (auto split: option.splits intro!: list_all_concat_map pairEdges_good)

subsection \<open>The whole builder, and the penalised copies\<close>

lemma buildGraph_good:
  assumes "buildGraph stations services tss = Inr g"
  shows "list_all goodEdge (g_edges g)" and "valuesAll distinct (g_stationStops g)"
proof -
  obtain om sc where t: "learnTopology stations services = (om, sc)"
    by (cases "learnTopology stations services")
  obtain edges2 ss where s: "serviceEdges om sc services = (edges2, ss)"
    by (cases "serviceEdges om sc services")
  have "valuesAll (valuesAll segNonneg) sc"
    using learnTopology_cache[of stations services] t by simp
  from serviceEdges_state[OF this, of om services] s
  have e2: "list_all goodEdge edges2" and d: "valuesAll distinct ss"
    by (simp_all add: rideState_def)
  from assms t s obtain edges3 where
    e3: "transferEdges stations ss edges2 = Inr edges3" and
    g: "g_edges g = edges3 @ proximityEdges tss ss stations" "g_stationStops g = ss"
    by (auto simp: buildGraph_def split: sum.splits)
  have "list_all goodEdge edges3"
    using transferStations_good[OF e2] e3 by (simp add: transferEdges_def)
  then show "list_all goodEdge (g_edges g)"
    by (simp add: g proximityEdges_good)
  show "valuesAll distinct (g_stationStops g)"
    by (simp add: g d)
qed

lemma buildGraph_distinct_types:
  assumes "buildGraph stations services tss = Inr g"
  shows "distinct (stopTypes (g_stationStops g) s)"
  using buildGraph_good(2)[OF assms]
  by (auto simp: stopTypes_def split: option.splits dest: valuesAll_objGet)

lemma modifyEdge_good:
  assumes "pat \<in> set searchPatterns" and "goodEdge e"
  shows "goodEdge (modifyEdge pat e)"
proof -
  have "t \<le> applyPenalty (p_transfer (pt_penalty pat)) b t"
    and "t \<le> applyPenalty (p_express (pt_penalty pat)) b t" for b t
    using assms(1)
    by (auto simp: searchPatterns_def fastestPattern_def transferAversePattern_def
          localPreferringPattern_def applyPenalty_def)
  then have "e_time e \<le> e_time (modifyEdge pat e)"
    by (simp add: modifyEdge_def) (meson order_trans)
  with assms(2) show ?thesis
    by (simp add: goodEdge_def modifyEdge_def)
qed

lemma modifiedEdges_ok:
  assumes "buildGraph stations services tss = Inr g" and "pat \<in> set searchPatterns"
  shows "edgesOK (modifiedEdges pat (g_edges g))"
  using buildGraph_good(1)[OF assms(1)] modifyEdge_good[OF assms(2)]
  by (auto simp: edgesOK_def modifiedEdges_def list_all_iff goodEdge_def)

lemma edgeRel_modified: "edgeRel (modifiedEdges pat E) = edgeRel E"
  by (auto simp: edgeRel_def modifiedEdges_def modifyEdge_def image_iff)


section \<open>Claims C8 and C10: unreachable goals and the trivial query\<close>

lemma island_buildGraph: "buildGraph islandStations islandServices [] = Inr islandGraph"
  by (simp add: islandStations_def islandServices_def islandGraph_def build_defs sample_defs
        literal_defs)

lemma closed_reach:
  assumes "closedUnder E N" and "a \<in> N" and "(a, b) \<in> (edgeRel E)\<^sup>*"
  shows "b \<in> N"
  using assms(3,2)
proof (induction rule: rtrancl_induct)
  case base
  then show ?case .
next
  case (step y z)
  then show ?case
    using assms(1) by (auto simp: closedUnder_def edgeRel_def)
qed

lemma island_unreachable: "unreachable islandGraph ''A'' ''X''"
proof -
  let ?N = "{nodeOf ''A'' LOCAL, nodeOf ''B'' LOCAL}"
  have cl: "closedUnder (g_edges islandGraph) ?N"
    by (simp add: closedUnder_def islandGraph_def localEdge_def nodeOf_def)
  have "nodeOf ''X'' LOCAL \<notin> ?N"
    by (simp add: nodeOf_def)
  then have "(nodeOf ''A'' LOCAL, nodeOf ''X'' LOCAL) \<notin> (edgeRel (g_edges islandGraph))\<^sup>*"
    using closed_reach[OF cl, of "nodeOf ''A'' LOCAL" "nodeOf ''X'' LOCAL"] by blast
  then show ?thesis
    by (simp add: unreachable_def presenceNodes_def stopTypes_def islandGraph_def objGet_def)
qed

lemma product_empty: "List.product xs ys = [] \<longleftrightarrow> xs = [] \<or> ys = []"
  by (induction xs) auto

lemma searchPairs_none:
  assumes "\<And>f t. (f, t) \<in> set pairs \<Longrightarrow>
             dijkstra stations E (st_id f) (st_id t) ss som tss = Some (Inr None)"
  shows "searchPairs stations E ss som tss pairs best = Some (Inr best)"
  using assms
proof (induction pairs arbitrary: best)
  case Nil
  then show ?case by simp
next
  case (Cons p pairs)
  obtain f t where p: "p = (f, t)" by (cases p)
  with Cons.prems have "dijkstra stations E (st_id f) (st_id t) ss som tss = Some (Inr None)"
    by simp
  moreover have "searchPairs stations E ss som tss pairs best = Some (Inr best)"
    using Cons.prems by (intro Cons.IH) simp
  ultimately show ?case
    by (simp add: p better_def)
qed

lemma searchAll_none:
  assumes "\<And>pat. pat \<in> set pats \<Longrightarrow>
             searchPairs stations (modifiedEdges pat (g_edges g)) (g_stationStops g)
               (g_stationOrderMap g) tss pairs None = Some (Inr None)"
  shows "searchAll stations g tss pairs pats acc = Some (Inr acc)"
  using assms by (induction pats arbitrary: acc) simp_all

lemma unreachable_dijkstra:
  assumes g: "buildGraph stations services tss = Inr g"
    and pat: "pat \<in> set searchPatterns"
    and un: "unreachable g s t"
  shows "dijkstra stations (modifiedEdges pat (g_edges g)) s t (g_stationStops g)
           (g_stationOrderMap g) tss = Some (Inr None)"
proof (rule dijkstra_unreachable)
  show "edgesOK (modifiedEdges pat (g_edges g))"
    by (rule modifiedEdges_ok[OF g pat])
  show "distinct (stopTypes (g_stationStops g) s)"
    by (rule buildGraph_distinct_types[OF g])
  show "(a, b) \<notin> (edgeRel (modifiedEdges pat (g_edges g)))\<^sup>*"
    if "a \<in> set (presenceNodes (g_stationStops g) s)" "b \<in> set (presenceNodes (g_stationStops g) t)"
    for a b
    using un that by (simp add: unreachable_def edgeRel_modified)
qed

text \<open>
  C8. On a graph that \<open>buildGraph\<close> returned, with the edge list penalised by any of
  the three patterns: when no presence node of the goal station is reachable from a
  presence node of the start station, \<open>dijkstra\<close> returns, raises nothing and yields
  \<^verbatim>\<open>null\<close>. When this holds for every candidate pair of a query that has
  candidates, \<open>searchRoute\<close> collects no result and reports that no route was found.
\<close>

theorem unreachable_goal_no_path:
  assumes "buildGraph stations services throughServices = Inr g"
  shows "(pat \<in> set searchPatterns \<and> unreachable g startStationId goalStationId
          \<longrightarrow> dijkstra stations (modifiedEdges pat (g_edges g)) startStationId goalStationId
                (g_stationStops g) (g_stationOrderMap g) throughServices = Some (Inr None)) \<and>
         (candidatePairs stations fromName toName \<noteq> [] \<and>
          list_all (\<lambda>p. unreachable g (st_id (fst p)) (st_id (snd p)))
            (candidatePairs stations fromName toName)
          \<longrightarrow> searchRoute (Some (stations, services, throughServices)) fromName toName
                = Some (Inr NoRouteFound))"
proof (intro conjI impI)
  assume "pat \<in> set searchPatterns \<and> unreachable g startStationId goalStationId"
  then show "dijkstra stations (modifiedEdges pat (g_edges g)) startStationId goalStationId
                (g_stationStops g) (g_stationOrderMap g) throughServices = Some (Inr None)"
    using unreachable_dijkstra[OF assms] by blast
next
  let ?pairs = "candidatePairs stations fromName toName"
  assume a: "?pairs \<noteq> [] \<and> list_all (\<lambda>p. unreachable g (st_id (fst p)) (st_id (snd p))) ?pairs"
  have "searchPairs stations (modifiedEdges pat (g_edges g)) (g_stationStops g)
               (g_stationOrderMap g) throughServices ?pairs None = Some (Inr None)"
    if "pat \<in> set searchPatterns" for pat
  proof (rule searchPairs_none)
    fix f t assume "(f, t) \<in> set ?pairs"
    with a have "unreachable g (st_id f) (st_id t)"
      by (auto simp: list_all_iff)
    from unreachable_dijkstra[OF assms that this]
    show "dijkstra stations (modifiedEdges pat (g_edges g)) (st_id f) (st_id t) (g_stationStops g)
            (g_stationOrderMap g) throughServices = Some (Inr None)" .
  qed
  then have "searchAll stations g throughServices ?pairs searchPatterns [] = Some (Inr [])"
    by (rule searchAll_none)
  moreover from a have "filter (\<lambda>s. st_name s = fromName) stations \<noteq> []"
    "filter (\<lambda>s. st_name s = toName) stations \<noteq> []"
    by (auto simp: candidatePairs_def product_empty)
  ultimately show "searchRoute (Some (stations, services, throughServices)) fromName toName
                = Some (Inr NoRouteFound)"
    using assms by (simp add: searchRoute_def candidatePairs_def Let_def)
qed

theorem unreachable_goal_no_path_witness:
  "buildGraph islandStations islandServices [] = Inr islandGraph \<and>
   fastestPattern \<in> set searchPatterns \<and> unreachable islandGraph ''A'' ''X'' \<and>
   dijkstra islandStations (modifiedEdges fastestPattern (g_edges islandGraph)) ''A'' ''X''
     (g_stationStops islandGraph) (g_stationOrderMap islandGraph) [] = Some (Inr None) \<and>
   candidatePairs islandStations ''Alpha'' ''Xi'' \<noteq> [] \<and>
   searchRoute (Some (islandStations, islandServices, [])) ''Alpha'' ''Xi'' = Some (Inr NoRouteFound)"
proof -
  have p: "fastestPattern \<in> set searchPatterns"
    by (simp add: searchPatterns_def)
  have c: "candidatePairs islandStations ''Alpha'' ''Xi''
           = [(islandStations ! 0, islandStations ! 2)]"
    by (simp add: candidatePairs_def islandStations_def)
  have ids: "st_id (islandStations ! 0) = ''A''" "st_id (islandStations ! 2) = ''X''"
    by (simp_all add: islandStations_def)
  from unreachable_goal_no_path[OF island_buildGraph, of fastestPattern "''A''" "''X''" "''Alpha''" "''Xi''"]
    p island_unreachable island_buildGraph
  show ?thesis
    by (simp add: c ids)
qed

text \<open>
  C10. On a graph that \<open>buildGraph\<close> returned, for a station with at least one
  service type in the registry, \<open>dijkstra\<close> from the station to itself returns the
  path that consists of the station's first presence node, with time 0 and distance 0.
\<close>

theorem dijkstra_same_station_single_node:
  assumes "buildGraph stations services throughServices = Inr g"
    and "pat \<in> set searchPatterns"
    and "stopTypes (g_stationStops g) stationId \<noteq> []"
  shows "dijkstra stations (modifiedEdges pat (g_edges g)) stationId stationId (g_stationStops g)
           (g_stationOrderMap g) throughServices
         = Some (Inr (Some \<lparr>r_path = [nodeOf stationId (hd (stopTypes (g_stationStops g) stationId))],
                             r_time = 0, r_distance = Some 0\<rparr>))"
proof -
  from assms(3) obtain t0 types where ne: "stopTypes (g_stationStops g) stationId = t0 # types"
    by (cases "stopTypes (g_stationStops g) stationId") auto
  from dijkstra_same_station[OF modifiedEdges_ok[OF assms(1,2)]
      buildGraph_distinct_types[OF assms(1)] ne]
  show ?thesis
    by (simp add: ne)
qed

theorem dijkstra_same_station_single_node_witness:
  "buildGraph expressStations expressServices [] = Inr expressGraph \<and>
   localPreferringPattern \<in> set searchPatterns \<and>
   stopTypes (g_stationStops expressGraph) ''A'' = [LOCAL, RAPID] \<and>
   dijkstra expressStations (modifiedEdges localPreferringPattern (g_edges expressGraph)) ''A'' ''A''
     (g_stationStops expressGraph) (g_stationOrderMap expressGraph) []
   = Some (Inr (Some \<lparr>r_path = [nodeOf ''A'' LOCAL], r_time = 0, r_distance = Some 0\<rparr>))"
proof -
  have p: "localPreferringPattern \<in> set searchPatterns"
    by (simp add: searchPatterns_def)
  have s: "stopTypes (g_stationStops expressGraph) ''A'' = [LOCAL, RAPID]"
    by (simp add: stopTypes_def expressGraph_def expressStops_def objGet_def)
  from dijkstra_same_station_single_node[OF express_buildGraph p, of "''A''"] s p express_buildGraph
  show ?thesis
    by simp
qed


section \<open>Consecutive transfers\<close>











end
